theory Spec2Isabelle
  imports Main "HOL-Library.AList" "HOL-Library.Product_Lexorder"
begin

section \<open>The crossword solver of \<^verbatim>\<open>generate.py\<close>\<close>

text \<open>
  The development embeds the class \<^verbatim>\<open>CrosswordCreator\<close> of
  \<^verbatim>\<open>src/crossword/generate.py\<close>. The method bodies are read with the block
  structure their comments and docstrings show (every statement after a \<^verbatim>\<open>def\<close>
  line belongs to that method, every statement after a \<^verbatim>\<open>for\<close> line that the
  comment above it describes belongs to that loop).

  \<^item> A Python \<^verbatim>\<open>set\<close> is a list without duplicates, in the order in which the
    interpreter iterates over it. That order is not fixed by the language, so it is an
    input of the model: results that do not depend on it are stated on \<open>set\<close>.
  \<^item> A Python \<^verbatim>\<open>dict\<close> is an association list in insertion order.
  \<^item> The attribute \<^verbatim>\<open>self.domains\<close> is mutated in place by the methods; the model
    passes it in and returns it.
  \<^item> A raised \<^verbatim>\<open>KeyError\<close> or \<^verbatim>\<open>IndexError\<close> is the \<open>Inl\<close> of a sum.
\<close>

subsection \<open>Data\<close>

type_synonym word = string

datatype direction = ACROSS | DOWN

text \<open>
  Modelled from the spec: the class \<^verbatim>\<open>Variable\<close> of \<^verbatim>\<open>crossword.py\<close>. A slot is
  its starting cell, its direction and its length; \<^verbatim>\<open>len(variable)\<close> and
  \<^verbatim>\<open>variable.length\<close> both read the length.
\<close>

datatype variable =
  Variable (var_i: nat) (var_j: nat) (var_direction: direction) (var_length: nat)

text \<open>
  Modelled from the spec: the class \<^verbatim>\<open>Crossword\<close> of \<^verbatim>\<open>crossword.py\<close>, as far as
  the solver reads it. \<open>overlaps\<close> is the dictionary from pairs of slots to
  \<^verbatim>\<open>None\<close> or a pair of indices: \<open>None\<close> for a missing key, \<open>Some None\<close> for the
  value \<^verbatim>\<open>None\<close>. \<open>neighbors\<close> is the method of that name.
\<close>

record crossword =
  variables :: "variable list"
  words :: "word list"
  overlaps :: "variable \<times> variable \<Rightarrow> (nat \<times> nat) option option"
  neighbors :: "variable \<Rightarrow> variable list"

datatype error = KeyError | IndexError

type_synonym domains = "(variable \<times> word list) list"

type_synonym assignment = "(variable \<times> word) list"

text \<open>\<^verbatim>\<open>d[k]\<close> on a dictionary and \<^verbatim>\<open>w[k]\<close> on a string.\<close>

definition getitem :: "('k \<times> 'v) list \<Rightarrow> 'k \<Rightarrow> error + 'v" where
  "getitem d k = (case map_of d k of None \<Rightarrow> Inl KeyError | Some v \<Rightarrow> Inr v)"

definition char_at :: "word \<Rightarrow> nat \<Rightarrow> error + char" where
  "char_at w k = (if k < length w then Inr (w ! k) else Inl IndexError)"

text \<open>The constructor: every slot starts with a copy of the whole vocabulary.\<close>

definition init_domains :: "crossword \<Rightarrow> domains" where
  "init_domains cw = map (\<lambda>var. (var, words cw)) (variables cw)"

subsection \<open>Node consistency\<close>

definition enforce_node_consistency :: "domains \<Rightarrow> domains" where
  "enforce_node_consistency d =
     map (\<lambda>(variable, vals).
            (variable, filter (\<lambda>value. length value = var_length variable) vals)) d"

subsection \<open>Arc consistency\<close>

text \<open>
  The generator \<^verbatim>\<open>any(x_value[x_index] == y_value[y_index] for y_value in ...)\<close>:
  both characters are read for each \<^verbatim>\<open>y_value\<close> until one pair agrees.
\<close>

fun any_agrees :: "word \<Rightarrow> nat \<Rightarrow> nat \<Rightarrow> word list \<Rightarrow> error + bool" where
  "any_agrees x_value x_index y_index [] = Inr False"
| "any_agrees x_value x_index y_index (y_value # ys) =
     (case char_at x_value x_index of
        Inl e \<Rightarrow> Inl e
      | Inr cx \<Rightarrow>
         (case char_at y_value y_index of
            Inl e \<Rightarrow> Inl e
          | Inr cy \<Rightarrow> if cx = cy then Inr True else any_agrees x_value x_index y_index ys))"

text \<open>
  The loop of \<^verbatim>\<open>revise\<close> over a copy of the domain of \<open>x\<close>; the domain of \<open>y\<close> is
  read from the current state in each round.
\<close>

fun revise_loop ::
  "variable \<Rightarrow> variable \<Rightarrow> nat \<Rightarrow> nat \<Rightarrow> word list \<Rightarrow> domains \<Rightarrow> bool \<Rightarrow> error + (bool \<times> domains)"
where
  "revise_loop x y x_index y_index [] d revised = Inr (revised, d)"
| "revise_loop x y x_index y_index (x_value # xs) d revised =
     (case getitem d y of
        Inl e \<Rightarrow> Inl e
      | Inr dy \<Rightarrow>
         (case any_agrees x_value x_index y_index dy of
            Inl e \<Rightarrow> Inl e
          | Inr True \<Rightarrow> revise_loop x y x_index y_index xs d revised
          | Inr False \<Rightarrow>
             (case getitem d x of
                Inl e \<Rightarrow> Inl e
              | Inr dx \<Rightarrow>
                 revise_loop x y x_index y_index xs
                   (AList.update x (removeAll x_value dx) d) True)))"

definition revise :: "crossword \<Rightarrow> domains \<Rightarrow> variable \<Rightarrow> variable \<Rightarrow> error + (bool \<times> domains)" where
  "revise cw d x y =
     (case overlaps cw (x, y) of
        None \<Rightarrow> Inl KeyError
      | Some None \<Rightarrow> Inr (False, d)
      | Some (Some (x_index, y_index)) \<Rightarrow>
         (case getitem d x of
            Inl e \<Rightarrow> Inl e
          | Inr dx \<Rightarrow> revise_loop x y x_index y_index dx d False))"

text \<open>The number of candidates in all domains: what the queue loop of \<^verbatim>\<open>ac3\<close> uses up.\<close>

definition dsize :: "domains \<Rightarrow> nat" where
  "dsize d = sum_list (map (\<lambda>p. length (snd p)) d)"

lemma dsize_update:
  "map_of d x = Some dx \<Longrightarrow> dsize (AList.update x ws d) + length dx = dsize d + length ws"
  by (induction d) (auto simp: dsize_def)

lemma revise_loop_dsize:
  "revise_loop x y xi yi xs d r = Inr (r', d') \<Longrightarrow>
   r \<or> (\<exists>dx. map_of d x = Some dx \<and> set xs \<subseteq> set dx) \<Longrightarrow>
   dsize d' \<le> dsize d \<and> (r' \<and> \<not> r \<longrightarrow> dsize d' < dsize d) \<and> (r \<longrightarrow> r')"
proof (induction xs arbitrary: d r)
  case Nil
  then show ?case by simp
next
  case (Cons v xs)
  from Cons.prems(1) obtain dy where dy: "getitem d y = Inr dy"
    by (auto split: sum.splits)
  from Cons.prems(1) dy obtain b where b: "any_agrees v xi yi dy = Inr b"
    by (auto split: sum.splits)
  show ?case
  proof (cases b)
    case True
    with Cons.prems dy b have "revise_loop x y xi yi xs d r = Inr (r', d')"
      by simp
    moreover from Cons.prems(2) have "r \<or> (\<exists>dx. map_of d x = Some dx \<and> set xs \<subseteq> set dx)"
      by auto
    ultimately show ?thesis by (rule Cons.IH)
  next
    case False
    with Cons.prems(1) dy b obtain dx where dx: "getitem d x = Inr dx"
      by (auto split: sum.splits)
    then have mdx: "map_of d x = Some dx"
      by (auto simp: getitem_def split: option.splits)
    let ?d1 = "AList.update x (removeAll v dx) d"
    from Cons.prems(1) dy b False dx
    have run: "revise_loop x y xi yi xs ?d1 True = Inr (r', d')"
      by simp
    have ih: "dsize d' \<le> dsize ?d1 \<and> (True \<longrightarrow> r')"
      using Cons.IH [OF run] by simp
    have upd: "dsize ?d1 + length dx = dsize d + length (removeAll v dx)"
      by (rule dsize_update [OF mdx])
    have le: "length (removeAll v dx) \<le> length dx"
      by (simp add: removeAll_filter_not_eq)
    have lt: "length (removeAll v dx) < length dx" if "\<not> r"
    proof -
      from that Cons.prems(2) mdx have "v \<in> set dx" by auto
      then show ?thesis
        by (simp add: removeAll_filter_not_eq length_filter_less)
    qed
    have le1: "dsize ?d1 \<le> dsize d"
      using upd le by linarith
    have lt1: "dsize ?d1 < dsize d" if "\<not> r"
      using upd lt [OF that] by linarith
    from ih le1 lt1 show ?thesis by (cases r) auto
  qed
qed

lemma revise_dsize:
  assumes "revise cw d x y = Inr (r, d')"
  shows "dsize d' \<le> dsize d \<and> (r \<longrightarrow> dsize d' < dsize d)"
proof (cases "overlaps cw (x, y)")
  case None
  with assms show ?thesis by (simp add: revise_def)
next
  case (Some ov)
  show ?thesis
  proof (cases ov)
    case None
    with Some assms show ?thesis by (auto simp: revise_def)
  next
    case (Some ij)
    obtain xi yi where ij: "ij = (xi, yi)" by (cases ij)
    from assms \<open>overlaps cw (x, y) = Some ov\<close> Some ij
    obtain dx where dx: "getitem d x = Inr dx"
      and run: "revise_loop x y xi yi dx d False = Inr (r, d')"
      by (auto simp: revise_def split: sum.splits)
    from dx have "map_of d x = Some dx"
      by (auto simp: getitem_def split: option.splits)
    with revise_loop_dsize [OF run] show ?thesis by auto
  qed
qed

text \<open>
  The \<^verbatim>\<open>while queue\<close> loop of \<^verbatim>\<open>ac3\<close>: the first arc is popped, and when the
  revision changed the domain of \<open>x\<close> the arcs \<open>(z, x)\<close> of the other neighbours are
  appended.
\<close>

function ac3_loop :: "crossword \<Rightarrow> (variable \<times> variable) list \<Rightarrow> domains \<Rightarrow> error + domains" where
  "ac3_loop cw [] d = Inr d"
| "ac3_loop cw ((x, y) # queue) d =
     (case revise cw d x y of
        Inl e \<Rightarrow> Inl e
      | Inr (revised, d') \<Rightarrow>
         if revised
         then ac3_loop cw (queue @ map (\<lambda>z. (z, x)) (filter (\<lambda>z. z \<noteq> y) (neighbors cw x))) d'
         else ac3_loop cw queue d')"
  by pat_completeness auto
termination
proof (relation "inv_image (less_than <*lex*> less_than) (\<lambda>(cw, queue, d). (dsize d, length queue))")
  show "wf (inv_image (less_than <*lex*> less_than)
              (\<lambda>(cw, queue, d). (dsize d, length queue)))"
    by (intro wf_inv_image wf_lex_prod wf_less_than)
next
  fix cw x y queue d x2 revised d'
  assume "revise cw d x y = Inr x2" and "(revised, d') = x2" and "revised"
  then have "dsize d' < dsize d"
    using revise_dsize [of cw d x y revised d'] by auto
  then show "((cw, queue @ map (\<lambda>z. (z, x)) (filter (\<lambda>z. z \<noteq> y) (neighbors cw x)), d'),
              (cw, (x, y) # queue, d))
             \<in> inv_image (less_than <*lex*> less_than) (\<lambda>(cw, queue, d). (dsize d, length queue))"
    by simp
next
  fix cw x y queue d x2 revised d'
  assume "revise cw d x y = Inr x2" and "(revised, d') = x2" and "\<not> revised"
  then have "dsize d' \<le> dsize d"
    using revise_dsize [of cw d x y revised d'] by auto
  then show "((cw, queue, d'), (cw, (x, y) # queue, d))
             \<in> inv_image (less_than <*lex*> less_than) (\<lambda>(cw, queue, d). (dsize d, length queue))"
    by auto
qed

text \<open>\<^verbatim>\<open>any(len(self.domains[var]) == 0 for var in self.crossword.variables)\<close>\<close>

fun any_empty :: "domains \<Rightarrow> variable list \<Rightarrow> error + bool" where
  "any_empty d [] = Inr False"
| "any_empty d (var # vars) =
     (case getitem d var of
        Inl e \<Rightarrow> Inl e
      | Inr vals \<Rightarrow> if length vals = 0 then Inr True else any_empty d vars)"

definition all_arcs :: "crossword \<Rightarrow> (variable \<times> variable) list" where
  "all_arcs cw = concat (map (\<lambda>x. map (\<lambda>y. (x, y)) (neighbors cw x)) (variables cw))"

definition ac3 ::
  "crossword \<Rightarrow> (variable \<times> variable) list option \<Rightarrow> domains \<Rightarrow> error + (bool \<times> domains)"
where
  "ac3 cw arcs d =
     (case ac3_loop cw (case arcs of Some queue \<Rightarrow> queue | None \<Rightarrow> all_arcs cw) d of
        Inl e \<Rightarrow> Inl e
      | Inr d' \<Rightarrow>
         (case any_empty d' (variables cw) of
            Inl e \<Rightarrow> Inl e
          | Inr True \<Rightarrow> Inr (False, d')
          | Inr False \<Rightarrow> Inr (True, d')))"

subsection \<open>The consistency checker\<close>

definition assignment_complete :: "crossword \<Rightarrow> assignment \<Rightarrow> bool" where
  "assignment_complete cw a \<longleftrightarrow> set (map fst a) = set (variables cw)"

text \<open>
  The inner loop of \<^verbatim>\<open>consistent\<close> over \<^verbatim>\<open>variable2\<close>; \<open>Inr False\<close> is the
  \<^verbatim>\<open>return False\<close>, \<open>Inr True\<close> is the end of the loop. \<^verbatim>\<open>overlaps.get\<close> gives
  \<^verbatim>\<open>None\<close> for a missing key.
\<close>

fun consistent_inner ::
  "crossword \<Rightarrow> assignment \<Rightarrow> variable \<Rightarrow> word \<Rightarrow> variable list \<Rightarrow> error + bool"
where
  "consistent_inner cw a variable1 value1 [] = Inr True"
| "consistent_inner cw a variable1 value1 (variable2 # vars) =
     (if variable1 \<noteq> variable2
      then (case overlaps cw (variable1, variable2) of
              Some (Some (x, y)) \<Rightarrow>
                (case map_of a variable2 of
                   None \<Rightarrow> consistent_inner cw a variable1 value1 vars
                 | Some value2 \<Rightarrow>
                    (case char_at value1 x of
                       Inl e \<Rightarrow> Inl e
                     | Inr c1 \<Rightarrow>
                        (case char_at value2 y of
                           Inl e \<Rightarrow> Inl e
                         | Inr c2 \<Rightarrow>
                            if c1 \<noteq> c2 then Inr False
                            else consistent_inner cw a variable1 value1 vars)))
            | _ \<Rightarrow> consistent_inner cw a variable1 value1 vars)
      else consistent_inner cw a variable1 value1 vars)"

fun consistent_outer :: "crossword \<Rightarrow> assignment \<Rightarrow> variable list \<Rightarrow> error + bool" where
  "consistent_outer cw a [] = Inr True"
| "consistent_outer cw a (variable1 # vars) =
     (case getitem a variable1 of
        Inl e \<Rightarrow> Inl e
      | Inr value1 \<Rightarrow>
         if var_length variable1 \<noteq> length value1 then Inr False
         else (case consistent_inner cw a variable1 value1 (map fst a) of
                 Inl e \<Rightarrow> Inl e
               | Inr False \<Rightarrow> Inr False
               | Inr True \<Rightarrow> consistent_outer cw a vars))"

definition consistent :: "crossword \<Rightarrow> assignment \<Rightarrow> error + bool" where
  "consistent cw a = consistent_outer cw a (map fst a)"

subsection \<open>Ordering heuristics\<close>

text \<open>A key function that may raise, applied to every element before the sort.\<close>

fun map_keys :: "('a \<Rightarrow> error + 'k) \<Rightarrow> 'a list \<Rightarrow> error + ('k \<times> 'a) list" where
  "map_keys f [] = Inr []"
| "map_keys f (v # vs) =
     (case f v of
        Inl e \<Rightarrow> Inl e
      | Inr k \<Rightarrow> (case map_keys f vs of Inl e \<Rightarrow> Inl e | Inr kvs \<Rightarrow> Inr ((k, v) # kvs)))"

text \<open>\<^verbatim>\<open>list.sort(key=f)\<close>: a stable sort on the keys.\<close>

definition sort_by :: "('a \<Rightarrow> error + 'k::linorder) \<Rightarrow> 'a list \<Rightarrow> error + 'a list" where
  "sort_by f vs =
     (case map_keys f vs of Inl e \<Rightarrow> Inl e | Inr kvs \<Rightarrow> Inr (map snd (sort_key fst kvs)))"

text \<open>The two nested loops of \<^verbatim>\<open>count_constrained_values\<close>.\<close>

fun count_values ::
  "crossword \<Rightarrow> variable \<Rightarrow> variable \<Rightarrow> word \<Rightarrow> word list \<Rightarrow> nat \<Rightarrow> error + nat"
where
  "count_values cw var neighbor value [] constrained_values = Inr constrained_values"
| "count_values cw var neighbor value (neighbor_value # nvs) constrained_values =
     (case overlaps cw (var, neighbor) of
        None \<Rightarrow> Inl KeyError
      | Some None \<Rightarrow> count_values cw var neighbor value nvs constrained_values
      | Some (Some (x, y)) \<Rightarrow>
         (case char_at value x of
            Inl e \<Rightarrow> Inl e
          | Inr c1 \<Rightarrow>
             (case char_at neighbor_value y of
                Inl e \<Rightarrow> Inl e
              | Inr c2 \<Rightarrow>
                 count_values cw var neighbor value nvs
                   (if c1 \<noteq> c2 then constrained_values + 1 else constrained_values))))"

fun count_neighbors ::
  "crossword \<Rightarrow> domains \<Rightarrow> assignment \<Rightarrow> variable \<Rightarrow> word \<Rightarrow> variable list \<Rightarrow> nat \<Rightarrow> error + nat"
where
  "count_neighbors cw d a var value [] constrained_values = Inr constrained_values"
| "count_neighbors cw d a var value (neighbor # ns) constrained_values =
     (if neighbor \<notin> set (map fst a)
      then (case getitem d neighbor of
              Inl e \<Rightarrow> Inl e
            | Inr nvs \<Rightarrow>
               (case count_values cw var neighbor value nvs constrained_values of
                  Inl e \<Rightarrow> Inl e
                | Inr c \<Rightarrow> count_neighbors cw d a var value ns c))
      else count_neighbors cw d a var value ns constrained_values)"

definition count_constrained_values ::
  "crossword \<Rightarrow> domains \<Rightarrow> assignment \<Rightarrow> variable \<Rightarrow> word \<Rightarrow> error + nat"
where
  "count_constrained_values cw d a var value =
     count_neighbors cw d a var value (neighbors cw var) 0"

definition order_domain_values ::
  "crossword \<Rightarrow> domains \<Rightarrow> variable \<Rightarrow> assignment \<Rightarrow> error + word list"
where
  "order_domain_values cw d var a =
     (case getitem d var of
        Inl e \<Rightarrow> Inl e
      | Inr domain \<Rightarrow> sort_by (count_constrained_values cw d a var) domain)"

text \<open>
  The sort key of \<^verbatim>\<open>select_unassigned_variable\<close> is the tuple
  \<^verbatim>\<open>(len(self.domains[var]), -len(self.crossword.neighbors(var)))\<close>, compared
  lexicographically.
\<close>

definition select_key :: "crossword \<Rightarrow> domains \<Rightarrow> variable \<Rightarrow> error + (nat \<times> int)" where
  "select_key cw d var =
     (case getitem d var of
        Inl e \<Rightarrow> Inl e
      | Inr vals \<Rightarrow> Inr (length vals, - int (length (neighbors cw var))))"

definition select_unassigned_variable ::
  "crossword \<Rightarrow> domains \<Rightarrow> assignment \<Rightarrow> error + variable option"
where
  "select_unassigned_variable cw d a =
     (case sort_by (select_key cw d) (filter (\<lambda>var. var \<notin> set (map fst a)) (variables cw)) of
        Inl e \<Rightarrow> Inl e
      | Inr [] \<Rightarrow> Inr None
      | Inr (var # _) \<Rightarrow> Inr (Some var))"

lemma map_keys_snd: "map_keys f vs = Inr kvs \<Longrightarrow> map snd kvs = vs"
  by (induction vs arbitrary: kvs) (auto split: sum.splits)

lemma sort_by_set: "sort_by f vs = Inr ws \<Longrightarrow> set ws = set vs"
proof -
  assume "sort_by f vs = Inr ws"
  then obtain kvs where k: "map_keys f vs = Inr kvs" and w: "ws = map snd (sort_key fst kvs)"
    by (auto simp: sort_by_def split: sum.splits)
  have "set ws = snd ` set kvs" using w by simp
  also have "\<dots> = set (map snd kvs)" by simp
  finally show ?thesis using map_keys_snd [OF k] by simp
qed

lemma select_unassigned_variable_Some:
  assumes "select_unassigned_variable cw d a = Inr (Some var)"
  shows "var \<in> set (variables cw) \<and> var \<notin> set (map fst a)"
proof -
  from assms obtain ws where
    s: "sort_by (select_key cw d) (filter (\<lambda>var. var \<notin> set (map fst a)) (variables cw)) = Inr (var # ws)"
    by (auto simp: select_unassigned_variable_def split: sum.splits list.splits)
  have "var \<in> set (var # ws)" by simp
  with sort_by_set [OF s] show ?thesis by auto
qed

subsection \<open>Backtracking search\<close>

text \<open>
  \<open>backtrack\<close> is the method, \<open>backtrack_loop\<close> its \<^verbatim>\<open>for value in ...\<close> loop. The
  result is the returned assignment (\<open>None\<close> for Python's \<^verbatim>\<open>None\<close>) and the state
  of \<^verbatim>\<open>self.domains\<close> at the return. When \<^verbatim>\<open>select_unassigned_variable\<close> returns
  \<^verbatim>\<open>None\<close>, \<^verbatim>\<open>order_domain_values\<close> looks \<^verbatim>\<open>None\<close> up in the domains.
\<close>

function backtrack ::
    "crossword \<Rightarrow> domains \<Rightarrow> assignment \<Rightarrow> error + (assignment option \<times> domains)"
  and backtrack_loop ::
    "crossword \<Rightarrow> domains \<Rightarrow> assignment \<Rightarrow> variable \<Rightarrow> word list
       \<Rightarrow> error + (assignment option \<times> domains)"
where
  "backtrack cw d a =
     (if assignment_complete cw a then Inr (Some a, d)
      else (case select_unassigned_variable cw d a of
              Inl e \<Rightarrow> Inl e
            | Inr None \<Rightarrow> Inl KeyError
            | Inr (Some var) \<Rightarrow>
               (case order_domain_values cw d var a of
                  Inl e \<Rightarrow> Inl e
                | Inr vals \<Rightarrow> backtrack_loop cw d a var vals)))"
| "backtrack_loop cw d a var [] = Inr (None, d)"
| "backtrack_loop cw d a var (value # vals) =
     (case consistent cw a of
        Inl e \<Rightarrow> Inl e
      | Inr False \<Rightarrow> backtrack_loop cw d a var vals
      | Inr True \<Rightarrow>
         (case ac3 cw None d of
            Inl e \<Rightarrow> Inl e
          | Inr (False, d') \<Rightarrow>
             backtrack_loop cw d' (AList.delete var (AList.update var value a)) var vals
          | Inr (True, d') \<Rightarrow>
             (case backtrack cw d' (AList.update var value a) of
                Inl e \<Rightarrow> Inl e
              | Inr (Some result, d'') \<Rightarrow> Inr (Some result, d'')
              | Inr (None, d'') \<Rightarrow>
                 backtrack_loop cw d'' (AList.delete var (AList.update var value a)) var vals)))"
  by pat_completeness auto

lemma keys_update: "fst ` set (AList.update var value a) = insert var (fst ` set a)"
  by (simp add: AList.dom_update)

lemma keys_delete: "fst ` set (AList.delete var a) = fst ` set a - {var}"
proof -
  have "set (map fst (AList.delete var a)) = set (map fst a) - {var}"
    by (simp add: AList.delete_keys)
  then show ?thesis by simp
qed

lemma unassigned_update:
  "V - fst ` set (AList.update var value a) = V - fst ` set a - {var}"
  by (auto simp: keys_update)

lemma unassigned_delete_update:
  "V - fst ` set (AList.delete var (AList.update var value a)) - {var} = V - fst ` set a - {var}"
  by (auto simp: keys_update keys_delete)

termination backtrack
proof (relation "inv_image (less_than <*lex*> less_than)
    (\<lambda>s. case s of
       Inl (cw, d, a) \<Rightarrow> (card (set (variables cw) - fst ` set a), 0)
     | Inr (cw, d, a, var, vals) \<Rightarrow>
         (card (set (variables cw) - fst ` set a - {var}), Suc (length vals)))")
  show "wf (inv_image (less_than <*lex*> less_than)
    (\<lambda>s. case s of
       Inl (cw, d, a) \<Rightarrow> (card (set (variables cw) - fst ` set a), 0::nat)
     | Inr (cw, d, a, var, vals) \<Rightarrow>
         (card (set (variables cw) - fst ` set a - {var}), Suc (length vals))))"
    by (intro wf_inv_image wf_lex_prod wf_less_than)
next
  fix cw d a x2 x2a and vals :: "word list"
  assume "\<not> assignment_complete cw a"
    and "select_unassigned_variable cw d a = Inr x2"
    and "x2 = Some x2a"
  then have "x2a \<in> set (variables cw) \<and> x2a \<notin> set (map fst a)"
    using select_unassigned_variable_Some by blast
  then have "card (set (variables cw) - fst ` set a - {x2a})
             < card (set (variables cw) - fst ` set a)"
    by (intro psubset_card_mono) auto
  then show "(Inr (cw, d, a, x2a, vals), Inl (cw, d, a))
       \<in> inv_image (less_than <*lex*> less_than)
    (\<lambda>s. case s of
       Inl (cw, d, a) \<Rightarrow> (card (set (variables cw) - fst ` set a), 0)
     | Inr (cw, d, a, var, vals) \<Rightarrow>
         (card (set (variables cw) - fst ` set a - {var}), Suc (length vals)))"
    by simp
qed (simp_all add: unassigned_update unassigned_delete_update)

text \<open>\<^verbatim>\<open>solve\<close> discards what \<^verbatim>\<open>ac3\<close> returns and starts the search on the empty assignment.\<close>

definition solve :: "crossword \<Rightarrow> error + assignment option" where
  "solve cw =
     (case ac3 cw None (enforce_node_consistency (init_domains cw)) of
        Inl e \<Rightarrow> Inl e
      | Inr (_, d) \<Rightarrow>
         (case backtrack cw d [] of
            Inl e \<Rightarrow> Inl e
          | Inr (result, _) \<Rightarrow> Inr result))"

section \<open>Specification predicates\<close>

text \<open>
  The predicates in which the claims are stated. They read a dictionary the way the
  code does, through its keys and the value found for a key.
\<close>

text \<open>
  The domain of a slot (empty for a slot without an entry), the domains having exactly
  the slots of the crossword as keys, and node consistency: every word of a domain has
  the length of its slot.
\<close>

definition dom_of :: "domains \<Rightarrow> variable \<Rightarrow> word list" where
  "dom_of d x = (case map_of d x of None \<Rightarrow> [] | Some vals \<Rightarrow> vals)"

definition keys_ok :: "crossword \<Rightarrow> domains \<Rightarrow> bool" where
  "keys_ok cw d \<longleftrightarrow> map fst d = variables cw"

definition node_consistent :: "domains \<Rightarrow> bool" where
  "node_consistent d \<longleftrightarrow>
     (\<forall>var \<in> set (map fst d). \<forall>value \<in> set (dom_of d var). length value = var_length var)"

definition domains_ok :: "crossword \<Rightarrow> domains \<Rightarrow> bool" where
  "domains_ok cw d \<longleftrightarrow> keys_ok cw d \<and> node_consistent d"

text \<open>
  The structural model the solver assumes: the slots are distinct, the neighbours of a
  slot are the other slots it has an overlap with, every pair of distinct slots has an
  entry in the overlaps, the entries of \<open>(x, y)\<close> and \<open>(y, x)\<close> mirror each other, and
  the indices lie inside the slots.
\<close>

definition wf_crossword :: "crossword \<Rightarrow> bool" where
  "wf_crossword cw \<longleftrightarrow>
     distinct (variables cw) \<and>
     (\<forall>x \<in> set (variables cw). set (neighbors cw x) \<subseteq> set (variables cw) - {x}) \<and>
     (\<forall>x \<in> set (variables cw). \<forall>y \<in> set (variables cw). x \<noteq> y \<longrightarrow>
        (case overlaps cw (x, y) of
           None \<Rightarrow> False
         | Some None \<Rightarrow> y \<notin> set (neighbors cw x)
         | Some (Some (i, j)) \<Rightarrow>
             y \<in> set (neighbors cw x) \<and> overlaps cw (y, x) = Some (Some (j, i)) \<and>
             i < var_length x \<and> j < var_length y))"

text \<open>
  The words of the domain of \<open>x\<close> that some word of the domain of \<open>y\<close> agrees with
  at the overlap; arc consistency of one arc and of all arcs between neighbours; a
  queue of arcs between distinct slots and the queue after one round of the loop of
  \<^verbatim>\<open>ac3\<close>; domains that only lost words; no slot without a word.
\<close>

definition pruned :: "crossword \<Rightarrow> domains \<Rightarrow> variable \<Rightarrow> variable \<Rightarrow> word list" where
  "pruned cw d x y =
     (case overlaps cw (x, y) of
        Some (Some (i, j)) \<Rightarrow>
          filter (\<lambda>w. \<exists>v \<in> set (dom_of d y). w ! i = v ! j) (dom_of d x)
      | _ \<Rightarrow> dom_of d x)"

definition arc_ok :: "crossword \<Rightarrow> domains \<Rightarrow> variable \<Rightarrow> variable \<Rightarrow> bool" where
  "arc_ok cw d x y \<longleftrightarrow>
     (case overlaps cw (x, y) of
        Some (Some (i, j)) \<Rightarrow> \<forall>w \<in> set (dom_of d x). \<exists>v \<in> set (dom_of d y). w ! i = v ! j
      | _ \<Rightarrow> True)"

definition arc_consistent :: "crossword \<Rightarrow> domains \<Rightarrow> bool" where
  "arc_consistent cw d \<longleftrightarrow>
     (\<forall>x \<in> set (variables cw). \<forall>y \<in> set (neighbors cw x). arc_ok cw d x y)"

definition valid_queue :: "crossword \<Rightarrow> (variable \<times> variable) list \<Rightarrow> bool" where
  "valid_queue cw queue \<longleftrightarrow>
     (\<forall>(x, y) \<in> set queue. x \<in> set (variables cw) \<and> y \<in> set (variables cw) \<and> x \<noteq> y)"

definition requeue ::
  "crossword \<Rightarrow> domains \<Rightarrow> variable \<Rightarrow> variable \<Rightarrow> (variable \<times> variable) list
     \<Rightarrow> (variable \<times> variable) list" where
  "requeue cw d x y queue =
     (if pruned cw d x y \<noteq> dom_of d x
      then queue @ map (\<lambda>z. (z, x)) (filter (\<lambda>z. z \<noteq> y) (neighbors cw x))
      else queue)"

definition shrinks :: "domains \<Rightarrow> domains \<Rightarrow> bool" where
  "shrinks d' d \<longleftrightarrow> map fst d' = map fst d \<and> (\<forall>z. set (dom_of d' z) \<subseteq> set (dom_of d z))"

definition no_empty_domain :: "crossword \<Rightarrow> domains \<Rightarrow> bool" where
  "no_empty_domain cw d \<longleftrightarrow> (\<forall>var \<in> set (variables cw). dom_of d var \<noteq> [])"

text \<open>
  The word an assignment gives a slot; an assignment of words of the right length to
  slots of the crossword; agreement at every overlap between two assigned slots.
\<close>

definition value_of :: "assignment \<Rightarrow> variable \<Rightarrow> word" where
  "value_of a v = (case map_of a v of None \<Rightarrow> [] | Some w \<Rightarrow> w)"

definition good_assignment :: "crossword \<Rightarrow> assignment \<Rightarrow> bool" where
  "good_assignment cw a \<longleftrightarrow>
     set (map fst a) \<subseteq> set (variables cw) \<and>
     (\<forall>v \<in> set (map fst a). length (value_of a v) = var_length v)"

definition overlaps_agree :: "crossword \<Rightarrow> assignment \<Rightarrow> bool" where
  "overlaps_agree cw a \<longleftrightarrow>
     (\<forall>v1 \<in> set (map fst a). \<forall>v2 \<in> set (map fst a). v1 \<noteq> v2 \<longrightarrow>
        (case overlaps cw (v1, v2) of
           Some (Some (x, y)) \<Rightarrow> value_of a v1 ! x = value_of a v2 ! y
         | _ \<Rightarrow> True))"

text \<open>
  The state in which \<^verbatim>\<open>solve\<close> starts the search, a complete consistent assignment
  whose words are still in the domains, and an assignment that is part of another.
\<close>

definition search_state :: "crossword \<Rightarrow> domains \<Rightarrow> bool" where
  "search_state cw d \<longleftrightarrow> wf_crossword cw \<and> domains_ok cw d \<and> arc_consistent cw d"

definition solution_in :: "crossword \<Rightarrow> domains \<Rightarrow> assignment \<Rightarrow> bool" where
  "solution_in cw d sol \<longleftrightarrow>
     set (map fst sol) = set (variables cw) \<and> good_assignment cw sol \<and>
     overlaps_agree cw sol \<and>
     (\<forall>v \<in> set (variables cw). value_of sol v \<in> set (dom_of d v))"

definition agrees :: "assignment \<Rightarrow> assignment \<Rightarrow> bool" where
  "agrees a sol \<longleftrightarrow> (\<forall>v \<in> set (map fst a). value_of a v = value_of sol v)"

section \<open>Example grids\<close>

text \<open>
  A grid with three slots: \<open>slot_C\<close> runs across the second row, \<open>slot_A\<close> and
  \<open>slot_B\<close> run down through its first and third cell.
\<close>

definition slot_A :: variable where "slot_A = Variable 0 0 DOWN 2"
definition slot_B :: variable where "slot_B = Variable 0 2 DOWN 4"
definition slot_C :: variable where "slot_C = Variable 1 0 ACROSS 3"

definition grid3 :: crossword where
  "grid3 =
     \<lparr>variables = [slot_A, slot_B, slot_C],
      words = [''AX'', ''AY'', ''AZ'', ''BXBB'', ''BYBB'', ''BZBB'',
               ''XCY'', ''XCZ'', ''YCX'', ''ZCX''],
      overlaps = (\<lambda>p.
        if p = (slot_A, slot_C) then Some (Some (1, 0))
        else if p = (slot_C, slot_A) then Some (Some (0, 1))
        else if p = (slot_B, slot_C) then Some (Some (1, 2))
        else if p = (slot_C, slot_B) then Some (Some (2, 1))
        else if fst p = snd p then None
        else Some None),
      neighbors = (\<lambda>v.
        if v = slot_A then [slot_C]
        else if v = slot_B then [slot_C]
        else if v = slot_C then [slot_A, slot_B]
        else [])\<rparr>"

text \<open>
  The grid of the specification's first end-to-end scenario: two crossing slots of
  length 3, the second letter of \<open>slot_D\<close> being the first letter of \<open>slot_E\<close>.
\<close>

definition slot_D :: variable where "slot_D = Variable 0 0 ACROSS 3"
definition slot_E :: variable where "slot_E = Variable 0 1 DOWN 3"

definition grid2 :: crossword where
  "grid2 =
     \<lparr>variables = [slot_D, slot_E],
      words = [''CAT'', ''DOG'', ''ACT''],
      overlaps = (\<lambda>p.
        if p = (slot_D, slot_E) then Some (Some (1, 0))
        else if p = (slot_E, slot_D) then Some (Some (0, 1))
        else if fst p = snd p then None
        else Some None),
      neighbors = (\<lambda>v.
        if v = slot_D then [slot_E]
        else if v = slot_E then [slot_D]
        else [])\<rparr>"

text \<open>
  A single isolated slot of length 4 and a vocabulary without a word of four letters.
\<close>

definition grid1 :: crossword where
  "grid1 =
     \<lparr>variables = [Variable 0 0 ACROSS 4],
      words = [''CAT'', ''HORSE''],
      overlaps = (\<lambda>p. None),
      neighbors = (\<lambda>v. [])\<rparr>"

text \<open>
  Domain states of the two grids used below.
\<close>

definition domains_C3 :: domains where
  "domains_C3 = [(slot_D, [''CAT'', ''ACT'']), (slot_E, [''CAT'', ''ACT''])]"

definition domains_C4 :: domains where
  "domains_C4 = [(slot_A, [''AX'', ''AQ'']), (slot_B, [''BXBB'', ''BYBB'']), (slot_C, [''XCY''])]"

definition domains_C4' :: domains where
  "domains_C4' = [(slot_A, [''AX'']), (slot_B, [''BYBB'']), (slot_C, [''XCY''])]"

definition domains_C5 :: domains where
  "domains_C5 = [(slot_A, [''AX'', ''AY'']), (slot_B, [''BXBB'']), (slot_C, [''XCY''])]"

definition domains_C6 :: domains where
  "domains_C6 = [(slot_A, [''AX'', ''AQ'']), (slot_B, [''BXBB'']), (slot_C, [''XCY''])]"

definition domains_C7 :: domains where
  "domains_C7 = [(slot_A, [''AX'', ''AQ'']), (slot_B, [''BXBB'', ''BYBB'']), (slot_C, [''XCY''])]"

definition domains_C7' :: domains where
  "domains_C7' = [(slot_A, [''AX'']), (slot_B, [''BYBB'']), (slot_C, [''XCY''])]"

definition domains_C8 :: domains where
  "domains_C8 =
     [(slot_A, [''AX'', ''AY'']), (slot_B, [''BXBB'', ''BYBB'', ''BZBB'']),
      (slot_C, [''XCY'', ''YCX''])]"

section \<open>Lemmas\<close>

subsection \<open>One revision\<close>

lemma getitem_Inr: "getitem d k = Inr v \<longleftrightarrow> map_of d k = Some v"
  by (simp add: getitem_def split: option.splits)

lemma any_agrees_ok:
  "i < length w \<Longrightarrow> \<forall>v \<in> set dy. j < length v \<Longrightarrow>
   any_agrees w i j dy = Inr (\<exists>v \<in> set dy. w ! i = v ! j)"
  by (induction dy) (auto simp: char_at_def)

lemma revise_loop_ok:
  assumes "x \<noteq> y" and "\<forall>v \<in> set dy. j < length v"
  shows "map_of d y = Some dy \<Longrightarrow> map_of d x = Some cur \<Longrightarrow> \<forall>w \<in> set xs. i < length w \<Longrightarrow>
    revise_loop x y i j xs d r =
      Inr (r \<or> (\<exists>w \<in> set xs. \<not> (\<exists>v \<in> set dy. w ! i = v ! j)),
           AList.update x (filter (\<lambda>w. w \<in> set xs \<longrightarrow> (\<exists>v \<in> set dy. w ! i = v ! j)) cur) d)"
proof (induction xs arbitrary: d cur r)
  case Nil
  then show ?case by (simp add: AList.update_triv)
next
  case (Cons u xs)
  let ?sup = "\<lambda>w. \<exists>v \<in> set dy. w ! i = v ! j"
  from Cons.prems have iu: "i < length u" and ixs: "\<forall>w \<in> set xs. i < length w"
    by auto
  have gy: "getitem d y = Inr dy"
    using Cons.prems(1) by (simp add: getitem_Inr)
  have ag: "any_agrees u i j dy = Inr (?sup u)"
    by (rule any_agrees_ok [OF iu assms(2)])
  show ?case
  proof (cases "?sup u")
    case True
    have "filter (\<lambda>w. w \<in> set (u # xs) \<longrightarrow> ?sup w) cur
          = filter (\<lambda>w. w \<in> set xs \<longrightarrow> ?sup w) cur"
      using True by (intro filter_cong) auto
    moreover have "(r \<or> (\<exists>w \<in> set (u # xs). \<not> ?sup w)) = (r \<or> (\<exists>w \<in> set xs. \<not> ?sup w))"
      using True by auto
    ultimately show ?thesis
      using Cons.IH [OF Cons.prems(1) Cons.prems(2) ixs, of r] gy ag True by simp
  next
    case False
    let ?d1 = "AList.update x (removeAll u cur) d"
    have gx: "getitem d x = Inr cur"
      using Cons.prems(2) by (simp add: getitem_Inr)
    have m1: "map_of ?d1 x = Some (removeAll u cur)"
      by (simp add: AList.update_conv')
    have my: "map_of ?d1 y = Some dy"
      using assms(1) Cons.prems(1) by (simp add: AList.update_conv')
    have ih: "revise_loop x y i j xs ?d1 True =
      Inr (True \<or> (\<exists>w \<in> set xs. \<not> ?sup w),
           AList.update x (filter (\<lambda>w. w \<in> set xs \<longrightarrow> ?sup w) (removeAll u cur)) ?d1)"
      by (rule Cons.IH [OF my m1 ixs])
    have "filter (\<lambda>w. w \<in> set xs \<longrightarrow> ?sup w) (removeAll u cur)
          = filter (\<lambda>w. w \<in> set (u # xs) \<longrightarrow> ?sup w) cur"
      using False by (auto simp: removeAll_filter_not_eq intro: filter_cong)
    with ih gy ag gx False show ?thesis by simp
  qed
qed

lemma revise_ok:
  assumes "x \<noteq> y" and "map_of d x = Some dx" and "map_of d y = Some dy"
    and "overlaps cw (x, y) = Some ov"
    and "\<And>i j. ov = Some (i, j) \<Longrightarrow>
           (\<forall>w \<in> set dx. i < length w) \<and> (\<forall>v \<in> set dy. j < length v)"
  shows "revise cw d x y = Inr (pruned cw d x y \<noteq> dom_of d x, AList.update x (pruned cw d x y) d)"
proof (cases ov)
  case None
  with assms(2,4) show ?thesis
    by (simp add: revise_def pruned_def dom_of_def AList.update_triv)
next
  case (Some ij)
  obtain i j where ij: "ij = (i, j)" by (cases ij)
  let ?sup = "\<lambda>w. \<exists>v \<in> set dy. w ! i = v ! j"
  from assms(5) Some ij have ix: "\<forall>w \<in> set dx. i < length w" and jy: "\<forall>v \<in> set dy. j < length v"
    by auto
  have p: "pruned cw d x y = filter ?sup dx"
    using assms(2,3,4) Some ij by (simp add: pruned_def dom_of_def)
  have f: "filter (\<lambda>w. w \<in> set dx \<longrightarrow> ?sup w) dx = filter ?sup dx"
    by (intro filter_cong) auto
  have b: "(\<exists>w \<in> set dx. \<not> ?sup w) \<longleftrightarrow> filter ?sup dx \<noteq> dx"
    by (simp add: filter_id_conv)
  have "revise cw d x y = revise_loop x y i j dx d False"
    using assms(2,4) Some ij by (simp add: revise_def getitem_def)
  also have "\<dots> = Inr (False \<or> (\<exists>w \<in> set dx. \<not> ?sup w),
      AList.update x (filter (\<lambda>w. w \<in> set dx \<longrightarrow> ?sup w) dx) d)"
    by (rule revise_loop_ok [OF assms(1) jy assms(3) assms(2) ix])
  finally show ?thesis
    using p f b assms(2) by (simp add: dom_of_def)
qed

lemma keys_ok_map_of:
  "keys_ok cw d \<Longrightarrow> x \<in> set (variables cw) \<Longrightarrow> map_of d x = Some (dom_of d x)"
proof -
  assume k: "keys_ok cw d" and x: "x \<in> set (variables cw)"
  then have "x \<in> set (map fst d)"
    unfolding keys_ok_def by (simp del: set_map)
  then have "x \<in> fst ` set d" by simp
  then have "map_of d x \<noteq> None" by (simp add: map_of_eq_None_iff)
  then show ?thesis by (auto simp: dom_of_def)
qed

lemma node_consistent_dom_of:
  "node_consistent d \<Longrightarrow> w \<in> set (dom_of d x) \<Longrightarrow> length w = var_length x"
proof -
  assume n: "node_consistent d" and w: "w \<in> set (dom_of d x)"
  then have "map_of d x \<noteq> None"
    by (cases "map_of d x") (simp_all add: dom_of_def)
  then have "x \<in> set (map fst d)"
    by (simp add: map_of_eq_None_iff)
  with n w show ?thesis
    unfolding node_consistent_def by blast
qed

lemma dom_of_update: "dom_of (AList.update x ws d) z = (if z = x then ws else dom_of d z)"
  by (simp add: dom_of_def AList.update_conv')

lemma domains_ok_update:
  assumes "domains_ok cw d" and "x \<in> set (variables cw)" and "set ws \<subseteq> set (dom_of d x)"
  shows "domains_ok cw (AList.update x ws d)"
proof -
  from assms(1) have k: "keys_ok cw d" and n: "node_consistent d"
    by (simp_all add: domains_ok_def)
  from k assms(2) have "x \<in> set (map fst d)"
    unfolding keys_ok_def by (simp del: set_map)
  then have keys: "map fst (AList.update x ws d) = map fst d"
    by (simp add: AList.update_keys del: set_map)
  have "length v = var_length var" if "v \<in> set (dom_of (AList.update x ws d) var)" for var v
  proof -
    from that assms(3) have "v \<in> set (dom_of d var)"
      by (auto simp: dom_of_update split: if_splits)
    then show ?thesis by (rule node_consistent_dom_of [OF n])
  qed
  then have "node_consistent (AList.update x ws d)"
    by (simp add: node_consistent_def)
  with keys k show ?thesis
    by (simp add: domains_ok_def keys_ok_def)
qed

lemma pruned_subset: "set (pruned cw d x y) \<subseteq> set (dom_of d x)"
  by (auto simp: pruned_def split: option.splits)

lemma wf_overlap:
  assumes "wf_crossword cw" and "x \<in> set (variables cw)" and "y \<in> set (variables cw)" and "x \<noteq> y"
  shows "\<exists>ov. overlaps cw (x, y) = Some ov \<and>
           (\<forall>i j. ov = Some (i, j) \<longrightarrow>
              y \<in> set (neighbors cw x) \<and> overlaps cw (y, x) = Some (Some (j, i)) \<and>
              i < var_length x \<and> j < var_length y) \<and>
           (ov = None \<longrightarrow> y \<notin> set (neighbors cw x))"
proof -
  from assms have "case overlaps cw (x, y) of
           None \<Rightarrow> False
         | Some None \<Rightarrow> y \<notin> set (neighbors cw x)
         | Some (Some (i, j)) \<Rightarrow>
             y \<in> set (neighbors cw x) \<and> overlaps cw (y, x) = Some (Some (j, i)) \<and>
             i < var_length x \<and> j < var_length y"
    unfolding wf_crossword_def by blast
  then show ?thesis by (auto split: option.splits)
qed

lemma wf_neighbors:
  "wf_crossword cw \<Longrightarrow> x \<in> set (variables cw) \<Longrightarrow> z \<in> set (neighbors cw x) \<Longrightarrow>
   z \<in> set (variables cw) \<and> z \<noteq> x"
  unfolding wf_crossword_def by blast

lemma revise_wf:
  assumes wf: "wf_crossword cw" and ok: "domains_ok cw d"
    and x: "x \<in> set (variables cw)" and y: "y \<in> set (variables cw)" and xy: "x \<noteq> y"
  shows "revise cw d x y =
           Inr (pruned cw d x y \<noteq> dom_of d x, AList.update x (pruned cw d x y) d)"
proof -
  from ok have k: "keys_ok cw d" and n: "node_consistent d"
    by (simp_all add: domains_ok_def)
  obtain ov where ov: "overlaps cw (x, y) = Some ov"
    and b: "\<And>i j. ov = Some (i, j) \<Longrightarrow> i < var_length x \<and> j < var_length y"
    using wf_overlap [OF wf x y xy] by blast
  show ?thesis
  proof (rule revise_ok [OF xy keys_ok_map_of [OF k x] keys_ok_map_of [OF k y] ov])
    fix i j
    assume "ov = Some (i, j)"
    with b have "i < var_length x" and "j < var_length y" by auto
    then show "(\<forall>w \<in> set (dom_of d x). i < length w) \<and> (\<forall>v \<in> set (dom_of d y). j < length v)"
      using node_consistent_dom_of [OF n] by auto
  qed
qed

subsection \<open>The queue loop of AC-3\<close>

lemma valid_queue_requeue:
  assumes "wf_crossword cw" and "valid_queue cw ((x, y) # queue)"
  shows "valid_queue cw (requeue cw d x y queue)"
  using assms wf_neighbors [OF assms(1), of x]
  by (auto simp: valid_queue_def requeue_def)

lemma ac3_loop_step:
  assumes "wf_crossword cw" and "domains_ok cw d" and "valid_queue cw ((x, y) # queue)"
  shows "ac3_loop cw ((x, y) # queue) d =
           ac3_loop cw (requeue cw d x y queue) (AList.update x (pruned cw d x y) d)"
proof -
  from assms(3) have "x \<in> set (variables cw)" "y \<in> set (variables cw)" "x \<noteq> y"
    by (auto simp: valid_queue_def)
  from revise_wf [OF assms(1,2) this] show ?thesis
    by (simp add: requeue_def)
qed

lemma ac3_loop_rule:
  "wf_crossword cw \<Longrightarrow>
   \<forall>d x y queue. domains_ok cw d \<and> valid_queue cw ((x, y) # queue) \<and> I d ((x, y) # queue) \<longrightarrow>
      I (AList.update x (pruned cw d x y) d) (requeue cw d x y queue) \<Longrightarrow>
   domains_ok cw d \<Longrightarrow> valid_queue cw queue \<Longrightarrow> I d queue \<Longrightarrow>
   \<exists>d'. ac3_loop cw queue d = Inr d' \<and> domains_ok cw d' \<and> I d' []"
proof (induction cw queue d rule: ac3_loop.induct)
  case (1 cw d)
  then show ?case by simp
next
  case (2 cw x y queue d)
  let ?d1 = "AList.update x (pruned cw d x y) d"
  let ?q1 = "requeue cw d x y queue"
  from "2.prems"(4) have x: "x \<in> set (variables cw)" and y: "y \<in> set (variables cw)" and xy: "x \<noteq> y"
    by (auto simp: valid_queue_def)
  have rv: "revise cw d x y = Inr (pruned cw d x y \<noteq> dom_of d x, ?d1)"
    by (rule revise_wf [OF "2.prems"(1,3) x y xy])
  have ok1: "domains_ok cw ?d1"
    by (rule domains_ok_update [OF "2.prems"(3) x pruned_subset])
  have vq1: "valid_queue cw ?q1"
    by (rule valid_queue_requeue [OF "2.prems"(1,4)])
  have i1: "I ?d1 ?q1"
    using "2.prems"(2,3,4,5) by blast
  have "\<exists>d'. ac3_loop cw ?q1 ?d1 = Inr d' \<and> domains_ok cw d' \<and> I d' []"
  proof (cases "pruned cw d x y \<noteq> dom_of d x")
    case True
    have q: "?q1 = queue @ map (\<lambda>z. (z, x)) (filter (\<lambda>z. z \<noteq> y) (neighbors cw x))"
      using True by (simp add: requeue_def)
    show ?thesis
      using "2.IH"(1) [OF rv refl True "2.prems"(1,2) ok1] vq1 i1 unfolding q by blast
  next
    case False
    have q: "?q1 = queue" using False by (simp add: requeue_def)
    show ?thesis
      using "2.IH"(2) [OF rv refl False "2.prems"(1,2) ok1] vq1 i1 unfolding q by blast
  qed
  then show ?case
    using ac3_loop_step [OF "2.prems"(1,3,4)] by simp
qed

lemma arc_ok_pruned: "arc_ok cw d x y \<longleftrightarrow> pruned cw d x y = dom_of d x"
  by (auto simp: arc_ok_def pruned_def filter_id_conv split: option.splits)

lemma wf_neighbor_overlap:
  assumes "wf_crossword cw" and "x \<in> set (variables cw)" and "y \<in> set (neighbors cw x)"
  shows "y \<in> set (variables cw) \<and> x \<noteq> y \<and> x \<in> set (neighbors cw y) \<and>
         (\<exists>i j. overlaps cw (x, y) = Some (Some (i, j)) \<and> overlaps cw (y, x) = Some (Some (j, i)))"
proof -
  from wf_neighbors [OF assms] have y: "y \<in> set (variables cw)" and xy: "x \<noteq> y"
    by auto
  from wf_overlap [OF assms(1,2) y xy] assms(3)
  obtain i j where o: "overlaps cw (x, y) = Some (Some (i, j))"
    and o': "overlaps cw (y, x) = Some (Some (j, i))"
    by (cases "overlaps cw (x, y)") auto
  from wf_overlap [OF assms(1) y assms(2)] xy o' have "x \<in> set (neighbors cw y)"
    by auto
  with y xy o o' show ?thesis by blast
qed

lemma shrinks_refl: "shrinks d d"
  by (simp add: shrinks_def)

lemma shrinks_trans: "shrinks d'' d' \<Longrightarrow> shrinks d' d \<Longrightarrow> shrinks d'' d"
  by (auto simp: shrinks_def)

lemma shrinks_update:
  "x \<in> set (map fst d) \<Longrightarrow> set ws \<subseteq> set (dom_of d x) \<Longrightarrow> shrinks (AList.update x ws d) d"
  by (simp add: shrinks_def AList.update_keys dom_of_update del: set_map)

lemma ac3_loop_shrinks:
  assumes wf: "wf_crossword cw" and ok: "domains_ok cw d" and vq: "valid_queue cw queue"
  shows "\<exists>d'. ac3_loop cw queue d = Inr d' \<and> domains_ok cw d' \<and> shrinks d' d"
proof -
  let ?I = "\<lambda>e (q :: (variable \<times> variable) list). shrinks e d"
  have step: "\<forall>e x y q. domains_ok cw e \<and> valid_queue cw ((x, y) # q) \<and> ?I e ((x, y) # q) \<longrightarrow>
      ?I (AList.update x (pruned cw e x y) e) (requeue cw e x y q)"
  proof (intro allI impI, elim conjE)
    fix e x y and q :: "(variable \<times> variable) list"
    assume e: "domains_ok cw e" and v: "valid_queue cw ((x, y) # q)" and s: "shrinks e d"
    from v have "x \<in> set (variables cw)" by (simp add: valid_queue_def)
    with e have "x \<in> set (map fst e)"
      unfolding domains_ok_def keys_ok_def by (simp del: set_map)
    then have "shrinks (AList.update x (pruned cw e x y) e) e"
      by (rule shrinks_update) (rule pruned_subset)
    then show "shrinks (AList.update x (pruned cw e x y) e) d"
      using s by (rule shrinks_trans)
  qed
  show ?thesis
    by (rule ac3_loop_rule [where I = ?I, OF wf step ok vq shrinks_refl])
qed

lemma ac3_loop_arc_consistent:
  assumes wf: "wf_crossword cw" and ok: "domains_ok cw d" and vq: "valid_queue cw queue"
    and cov: "\<forall>x \<in> set (variables cw). \<forall>y \<in> set (neighbors cw x).
                (x, y) \<in> set queue \<or> arc_ok cw d x y"
  shows "\<exists>d'. ac3_loop cw queue d = Inr d' \<and> arc_consistent cw d'"
proof -
  let ?I = "\<lambda>e q. \<forall>x \<in> set (variables cw). \<forall>y \<in> set (neighbors cw x).
                (x, y) \<in> set q \<or> arc_ok cw e x y"
  have step: "\<forall>e x y q. domains_ok cw e \<and> valid_queue cw ((x, y) # q) \<and> ?I e ((x, y) # q) \<longrightarrow>
      ?I (AList.update x (pruned cw e x y) e) (requeue cw e x y q)"
  proof (intro allI impI ballI, elim conjE)
    fix e x y q u v
    assume e: "domains_ok cw e" and vq: "valid_queue cw ((x, y) # q)"
      and inv: "?I e ((x, y) # q)"
      and u: "u \<in> set (variables cw)" and v: "v \<in> set (neighbors cw u)"
    let ?P = "pruned cw e x y"
    let ?e1 = "AList.update x ?P e"
    let ?q1 = "requeue cw e x y q"
    from vq have x: "x \<in> set (variables cw)" and y: "y \<in> set (variables cw)" and xy: "x \<noteq> y"
      by (auto simp: valid_queue_def)
    from wf_neighbor_overlap [OF wf u v] obtain i j where
      vv: "v \<in> set (variables cw)" and uv: "u \<noteq> v" and un: "u \<in> set (neighbors cw v)"
      and o: "overlaps cw (u, v) = Some (Some (i, j))"
      and o': "overlaps cw (v, u) = Some (Some (j, i))"
      by blast
    have qsub: "set q \<subseteq> set ?q1" by (auto simp: requeue_def)
    have sub: "set (dom_of ?e1 z) \<subseteq> set (dom_of e z)" for z
      using pruned_subset [of cw e x y] by (simp add: dom_of_update)
    from inv u v consider "(u, v) = (x, y)" | "(u, v) \<in> set q" | "arc_ok cw e u v"
      by auto
    then show "(u, v) \<in> set ?q1 \<or> arc_ok cw ?e1 u v"
    proof cases
      case 1
      then have "u = x" "v = y" by auto
      have "arc_ok cw ?e1 x y"
        using o xy \<open>u = x\<close> \<open>v = y\<close>
        by (auto simp: arc_ok_def dom_of_update pruned_def)
      then show ?thesis using \<open>u = x\<close> \<open>v = y\<close> by simp
    next
      case 2
      with qsub show ?thesis by auto
    next
      case 3
      show ?thesis
      proof (cases "?P = dom_of e x")
        case True
        then have "dom_of ?e1 z = dom_of e z" for z
          by (simp add: dom_of_update)
        with 3 o show ?thesis by (simp add: arc_ok_def)
      next
        case False
        show ?thesis
        proof (cases "v = x")
          case vx: True
          show ?thesis
          proof (cases "u = y")
            case uy: True
            have "arc_ok cw ?e1 y x"
              unfolding arc_ok_def
            proof (simp add: o [unfolded vx uy] dom_of_update xy [symmetric], intro ballI)
              fix w
              assume w: "w \<in> set (dom_of e y)"
              with 3 o vx uy obtain w' where w': "w' \<in> set (dom_of e x)" and eq: "w ! i = w' ! j"
                by (auto simp: arc_ok_def)
              from w eq have "\<exists>v \<in> set (dom_of e y). w' ! j = v ! i"
                by (intro bexI [of _ w]) simp_all
              with w' o' vx uy have "w' \<in> set ?P"
                by (simp add: pruned_def)
              with eq show "\<exists>v \<in> set ?P. w ! i = v ! j" by blast
            qed
            then show ?thesis using vx uy by simp
          next
            case False
            with un vx have "(u, x) \<in> set ?q1"
              using \<open>?P \<noteq> dom_of e x\<close> by (auto simp: requeue_def)
            then show ?thesis using vx by simp
          qed
        next
          case False
          then have "dom_of ?e1 v = dom_of e v"
            by (simp add: dom_of_update)
          with 3 sub [of u] o have "arc_ok cw ?e1 u v"
            by (auto simp: arc_ok_def)
          then show ?thesis ..
        qed
      qed
    qed
  qed
  from ac3_loop_rule [where I = ?I, OF wf step ok vq cov]
  show ?thesis by (auto simp: arc_consistent_def)
qed

lemma ac3_loop_fixed:
  assumes wf: "wf_crossword cw" and ok: "domains_ok cw d" and ac: "arc_consistent cw d"
  shows "valid_queue cw queue \<Longrightarrow> ac3_loop cw queue d = Inr d"
proof (induction queue)
  case Nil
  show ?case by simp
next
  case (Cons a queue)
  obtain x y where a: "a = (x, y)" by (cases a)
  from Cons.prems a have x: "x \<in> set (variables cw)" and y: "y \<in> set (variables cw)"
    and xy: "x \<noteq> y" and vq: "valid_queue cw queue"
    by (auto simp: valid_queue_def)
  have p: "pruned cw d x y = dom_of d x"
  proof (cases "y \<in> set (neighbors cw x)")
    case True
    with ac x have "arc_ok cw d x y" by (simp add: arc_consistent_def)
    then show ?thesis by (simp add: arc_ok_pruned)
  next
    case False
    with wf_overlap [OF wf x y xy] show ?thesis
      by (auto simp: pruned_def split: option.splits)
  qed
  from ok have "keys_ok cw d" by (simp add: domains_ok_def)
  from keys_ok_map_of [OF this x] have u: "AList.update x (dom_of d x) d = d"
    by (rule AList.update_triv)
  have "ac3_loop cw ((x, y) # queue) d = ac3_loop cw queue d"
    using ac3_loop_step [OF wf ok Cons.prems [unfolded a]] p u by (simp add: requeue_def)
  with Cons.IH [OF vq] a show ?case by simp
qed

lemma all_arcs_iff:
  "(x, y) \<in> set (all_arcs cw) \<longleftrightarrow> x \<in> set (variables cw) \<and> y \<in> set (neighbors cw x)"
  by (auto simp: all_arcs_def)

lemma valid_queue_all_arcs: "wf_crossword cw \<Longrightarrow> valid_queue cw (all_arcs cw)"
  using wf_neighbors by (fastforce simp: valid_queue_def all_arcs_iff)

lemma any_empty_ok:
  "keys_ok cw d \<Longrightarrow> set vs \<subseteq> set (variables cw) \<Longrightarrow>
   any_empty d vs = Inr (\<exists>v \<in> set vs. dom_of d v = [])"
proof (induction vs)
  case Nil
  show ?case by simp
next
  case (Cons v vs)
  then have "map_of d v = Some (dom_of d v)"
    by (intro keys_ok_map_of) auto
  then have "getitem d v = Inr (dom_of d v)" by (simp add: getitem_Inr)
  with Cons show ?case by auto
qed

lemma ac3_result:
  assumes "ac3_loop cw (case arcs of Some queue \<Rightarrow> queue | None \<Rightarrow> all_arcs cw) d = Inr d'"
    and "keys_ok cw d'"
  shows "ac3 cw arcs d = Inr (no_empty_domain cw d', d')"
proof -
  have "any_empty d' (variables cw) = Inr (\<not> no_empty_domain cw d')"
    using any_empty_ok [OF assms(2) subset_refl] by (simp add: no_empty_domain_def)
  with assms(1) show ?thesis
    by (cases "no_empty_domain cw d'") (simp_all add: ac3_def)
qed

lemma ac3_default:
  assumes wf: "wf_crossword cw" and ok: "domains_ok cw d"
  shows "\<exists>d'. ac3 cw None d = Inr (no_empty_domain cw d', d') \<and>
              domains_ok cw d' \<and> shrinks d' d \<and> arc_consistent cw d'"
proof -
  have vq: "valid_queue cw (all_arcs cw)" by (rule valid_queue_all_arcs [OF wf])
  from ac3_loop_shrinks [OF wf ok vq] obtain d' where
    l: "ac3_loop cw (all_arcs cw) d = Inr d'" and ok': "domains_ok cw d'" and s: "shrinks d' d"
    by blast
  have "\<forall>x \<in> set (variables cw). \<forall>y \<in> set (neighbors cw x).
          (x, y) \<in> set (all_arcs cw) \<or> arc_ok cw d x y"
    by (simp add: all_arcs_iff)
  from ac3_loop_arc_consistent [OF wf ok vq this] l have ac: "arc_consistent cw d'"
    by auto
  from ok' have "keys_ok cw d'" by (simp add: domains_ok_def)
  with l have "ac3 cw None d = Inr (no_empty_domain cw d', d')"
    by (intro ac3_result) simp_all
  with ok' s ac show ?thesis by blast
qed

lemma ac3_fixed:
  assumes wf: "wf_crossword cw" and ok: "domains_ok cw d" and ac: "arc_consistent cw d"
  shows "ac3 cw None d = Inr (no_empty_domain cw d, d)"
proof -
  have "ac3_loop cw (all_arcs cw) d = Inr d"
    by (rule ac3_loop_fixed [OF wf ok ac valid_queue_all_arcs [OF wf]])
  moreover from ok have "keys_ok cw d" by (simp add: domains_ok_def)
  ultimately show ?thesis by (intro ac3_result) simp_all
qed

subsection \<open>The sort of the heuristics\<close>

lemma map_keys_ok:
  "\<forall>v \<in> set vs. f v = Inr (k v) \<Longrightarrow> map_keys f vs = Inr (map (\<lambda>v. (k v, v)) vs)"
  by (induction vs) auto

lemma sort_key_decorated:
  "sort_key fst (map (\<lambda>v. (k v, v)) vs) = map (\<lambda>v. (k v, v)) (sort_key k vs)"
proof (induction vs)
  case Nil
  show ?case by simp
next
  case (Cons x vs)
  have "insort_key fst (k x, x) (map (\<lambda>v. (k v, v)) ys) = map (\<lambda>v. (k v, v)) (insort_key k x ys)" for ys
    by (induction ys) auto
  with Cons show ?case by simp
qed

lemma sort_by_ok:
  assumes "\<forall>v \<in> set vs. f v = Inr (k v)"
  shows "sort_by f vs = Inr (sort_key k vs)"
  using map_keys_ok [OF assms] by (simp add: sort_by_def sort_key_decorated comp_def)

lemma sort_key_head_least:
  assumes "sort_key k vs = w # ws"
  shows "w \<in> set vs \<and> (\<forall>v \<in> set vs. k w \<le> k v)"
proof -
  have "sorted (map k (sort_key k vs))" by (rule sorted_sort_key)
  with assms have "\<forall>v \<in> set (w # ws). k w \<le> k v" by auto
  moreover have "set (w # ws) = set vs"
    using set_sort [of k vs] assms by simp
  ultimately show ?thesis by auto
qed

subsection \<open>Variable selection\<close>

lemma select_key_ok:
  "keys_ok cw d \<Longrightarrow> var \<in> set (variables cw) \<Longrightarrow>
   select_key cw d var = Inr (length (dom_of d var), - int (length (neighbors cw var)))"
  using keys_ok_map_of [of cw d var] by (simp add: select_key_def getitem_def)

lemma select_unassigned_variable_ok:
  assumes k: "keys_ok cw d"
  shows "select_unassigned_variable cw d a =
           Inr (case sort_key (\<lambda>var. (length (dom_of d var), - int (length (neighbors cw var))))
                       (filter (\<lambda>var. var \<notin> set (map fst a)) (variables cw)) of
                  [] \<Rightarrow> None
                | var # _ \<Rightarrow> Some var)"
proof -
  let ?us = "filter (\<lambda>var. var \<notin> set (map fst a)) (variables cw)"
  let ?k = "\<lambda>var. (length (dom_of d var), - int (length (neighbors cw var)))"
  have "\<forall>v \<in> set ?us. select_key cw d v = Inr (?k v)"
    using select_key_ok [OF k] by simp
  then have "sort_by (select_key cw d) ?us = Inr (sort_key ?k ?us)"
    by (rule sort_by_ok)
  then show ?thesis
    by (simp add: select_unassigned_variable_def split: list.splits)
qed

lemma select_unassigned_variable_least:
  assumes k: "keys_ok cw d" and u: "u \<in> set (variables cw)" and ua: "u \<notin> set (map fst a)"
  shows "\<exists>var. select_unassigned_variable cw d a = Inr (Some var) \<and>
           var \<in> set (variables cw) \<and> var \<notin> set (map fst a) \<and>
           (\<forall>v \<in> set (variables cw). v \<notin> set (map fst a) \<longrightarrow>
              length (dom_of d var) \<le> length (dom_of d v) \<and>
              (length (dom_of d v) = length (dom_of d var) \<longrightarrow>
                 length (neighbors cw v) \<le> length (neighbors cw var)))"
proof -
  let ?us = "filter (\<lambda>var. var \<notin> set (map fst a)) (variables cw)"
  let ?k = "\<lambda>var. (length (dom_of d var), - int (length (neighbors cw var)))"
  from u ua have "u \<in> set ?us" by simp
  then have "set (sort_key ?k ?us) \<noteq> {}"
    unfolding set_sort by (metis empty_iff)
  then obtain var ws where s: "sort_key ?k ?us = var # ws"
    by (cases "sort_key ?k ?us") (simp_all del: set_sort)
  from sort_key_head_least [OF s] have m: "var \<in> set ?us" and l: "\<forall>v \<in> set ?us. ?k var \<le> ?k v"
    by auto
  have "select_unassigned_variable cw d a = Inr (Some var)"
    using select_unassigned_variable_ok [OF k, of a] s by simp
  moreover have "length (dom_of d var) \<le> length (dom_of d v) \<and>
              (length (dom_of d v) = length (dom_of d var) \<longrightarrow>
                 length (neighbors cw v) \<le> length (neighbors cw var))"
    if "v \<in> set (variables cw)" "v \<notin> set (map fst a)" for v
  proof -
    from that l have "?k var \<le> ?k v" by simp
    then show ?thesis by (auto simp: less_eq_prod_def)
  qed
  ultimately show ?thesis using m by auto
qed

lemma select_unassigned_variable_none:
  assumes k: "keys_ok cw d" and "set (variables cw) \<subseteq> set (map fst a)"
  shows "select_unassigned_variable cw d a = Inr None"
proof -
  from assms(2) have "filter (\<lambda>var. var \<notin> set (map fst a)) (variables cw) = []"
    by (auto simp: filter_empty_conv)
  then show ?thesis
    using select_unassigned_variable_ok [OF k, of a] by simp
qed

subsection \<open>Domains only lose words\<close>

lemma shrinks_node_consistent: "shrinks d' d \<Longrightarrow> node_consistent d \<Longrightarrow> node_consistent d'"
  unfolding shrinks_def node_consistent_def by (metis subsetD)

lemma revise_loop_only_removes:
  "revise_loop x y i j xs d r = Inr (r', d') \<Longrightarrow> shrinks d' d"
proof (induction xs arbitrary: d r)
  case Nil
  then show ?case by (simp add: shrinks_refl)
next
  case (Cons v xs)
  from Cons.prems obtain dy where dy: "getitem d y = Inr dy"
    by (auto split: sum.splits)
  from Cons.prems dy obtain b where b: "any_agrees v i j dy = Inr b"
    by (auto split: sum.splits)
  show ?case
  proof (cases b)
    case True
    with Cons.prems dy b have "revise_loop x y i j xs d r = Inr (r', d')" by simp
    then show ?thesis by (rule Cons.IH)
  next
    case False
    with Cons.prems dy b obtain dx where dx: "getitem d x = Inr dx"
      by (auto split: sum.splits)
    then have m: "map_of d x = Some dx" by (simp add: getitem_Inr)
    let ?d1 = "AList.update x (removeAll v dx) d"
    from Cons.prems dy b False dx have "revise_loop x y i j xs ?d1 True = Inr (r', d')"
      by simp
    then have "shrinks d' ?d1" by (rule Cons.IH)
    moreover have "shrinks ?d1 d"
    proof (rule shrinks_update)
      from m have "(x, dx) \<in> set d" by (rule map_of_SomeD)
      then show "x \<in> set (map fst d)" by force
      show "set (removeAll v dx) \<subseteq> set (dom_of d x)"
        using m by (auto simp: dom_of_def)
    qed
    ultimately show ?thesis by (rule shrinks_trans)
  qed
qed

lemma revise_only_removes: "revise cw d x y = Inr (r, d') \<Longrightarrow> shrinks d' d"
  by (auto simp: revise_def shrinks_refl split: option.splits sum.splits
      dest: revise_loop_only_removes)

lemma ac3_loop_only_removes: "ac3_loop cw queue d = Inr d' \<Longrightarrow> shrinks d' d"
proof (induction cw queue d rule: ac3_loop.induct)
  case (1 cw d)
  then show ?case by (simp add: shrinks_refl)
next
  case (2 cw x y queue d)
  from "2.prems" obtain revised d1 where r: "revise cw d x y = Inr (revised, d1)"
    by (auto split: sum.splits)
  have s1: "shrinks d1 d" by (rule revise_only_removes [OF r])
  show ?case
  proof (cases revised)
    case True
    with "2.prems" r have
      "ac3_loop cw (queue @ map (\<lambda>z. (z, x)) (filter (\<lambda>z. z \<noteq> y) (neighbors cw x))) d1 = Inr d'"
      by simp
    from "2.IH"(1) [OF r refl True this] s1 show ?thesis by (rule shrinks_trans)
  next
    case False
    with "2.prems" r have "ac3_loop cw queue d1 = Inr d'" by simp
    from "2.IH"(2) [OF r refl False this] s1 show ?thesis by (rule shrinks_trans)
  qed
qed

lemma ac3_only_removes: "ac3 cw arcs d = Inr (b, d') \<Longrightarrow> shrinks d' d"
  by (auto simp: ac3_def split: sum.splits bool.splits dest: ac3_loop_only_removes)

lemma backtrack_only_removes:
  "(\<forall>r d'. backtrack cw d a = Inr (r, d') \<longrightarrow> shrinks d' d)"
  "(\<forall>r d'. backtrack_loop cw d a var vals = Inr (r, d') \<longrightarrow> shrinks d' d)"
proof (induction cw d a and cw d a var vals rule: backtrack_backtrack_loop.induct)
  case (1 cw d a)
  show ?case
  proof (intro allI impI)
    fix r d'
    assume b: "backtrack cw d a = Inr (r, d')"
    show "shrinks d' d"
    proof (cases "assignment_complete cw a")
      case True
      with b show ?thesis by (simp add: shrinks_refl)
    next
      case False
      with b obtain var vals where s: "select_unassigned_variable cw d a = Inr (Some var)"
        and o: "order_domain_values cw d var a = Inr vals"
        and l: "backtrack_loop cw d a var vals = Inr (r, d')"
        by (auto split: sum.splits option.splits)
      from "1.IH" [OF False s refl o] l show ?thesis by blast
    qed
  qed
next
  case (2 cw d a var)
  show ?case by (simp add: shrinks_refl)
next
  case (3 cw d a var "value" vals)
  show ?case
  proof (intro allI impI)
    fix r d'
    assume b: "backtrack_loop cw d a var (value # vals) = Inr (r, d')"
    then obtain c where c: "consistent cw a = Inr c"
      by (auto split: sum.splits)
    show "shrinks d' d"
    proof (cases c)
      case False
      with b c have "backtrack_loop cw d a var vals = Inr (r, d')" by simp
      moreover from False have "c = False" by simp
      ultimately show ?thesis using "3.IH"(4) [OF c] by blast
    next
      case True
      then have cT: "c = True" by simp
      from True b c obtain ok d1 where a3: "ac3 cw None d = Inr (ok, d1)"
        by (auto split: sum.splits)
      have s1: "shrinks d1 d" by (rule ac3_only_removes [OF a3])
      show ?thesis
      proof (cases ok)
        case False
        then have okF: "ok = False" by simp
        from False b c True a3 have
          "backtrack_loop cw d1 (AList.delete var (AList.update var value a)) var vals = Inr (r, d')"
          by simp
        with "3.IH"(3) [OF c cT a3 refl okF] have "shrinks d' d1" by blast
        then show ?thesis using s1 by (rule shrinks_trans)
      next
        case okT': True
        then have okT: "ok = True" by simp
        from okT' b c True a3 obtain r2 d2 where
          b2: "backtrack cw d1 (AList.update var value a) = Inr (r2, d2)"
          by (auto split: sum.splits)
        from "3.IH"(1) [OF c cT a3 refl okT] b2 have s2: "shrinks d2 d1" by blast
        show ?thesis
        proof (cases r2)
          case (Some res)
          with b c True a3 okT b2 have "d' = d2" by simp
          with s2 s1 show ?thesis by (auto intro: shrinks_trans)
        next
          case None
          with b c True a3 okT b2 have
            "backtrack_loop cw d2 (AList.delete var (AList.update var value a)) var vals = Inr (r, d')"
            by simp
          with "3.IH"(2) [OF c cT a3 refl okT b2 refl None] have "shrinks d' d2" by blast
          with s2 s1 show ?thesis by (blast intro: shrinks_trans)
        qed
      qed
    qed
  qed
qed

subsection \<open>Node consistency\<close>

lemma map_of_enforce_node_consistency:
  "map_of (enforce_node_consistency d) x =
     map_option (filter (\<lambda>value. length value = var_length x)) (map_of d x)"
  by (induction d) (auto simp: enforce_node_consistency_def)

lemma dom_of_enforce_node_consistency:
  "dom_of (enforce_node_consistency d) x =
     filter (\<lambda>value. length value = var_length x) (dom_of d x)"
  by (cases "map_of d x") (simp_all add: dom_of_def map_of_enforce_node_consistency)

lemma keys_enforce_node_consistency: "map fst (enforce_node_consistency d) = map fst d"
  by (induction d) (auto simp: enforce_node_consistency_def)

lemma node_consistent_enforce: "node_consistent (enforce_node_consistency d)"
  by (simp add: node_consistent_def dom_of_enforce_node_consistency)

lemma dom_of_init_domains:
  "x \<in> set (variables cw) \<Longrightarrow> dom_of (init_domains cw) x = words cw"
proof -
  have "x \<in> set vs \<Longrightarrow> map_of (map (\<lambda>var. (var, ws)) vs) x = Some ws" for vs and ws :: "word list"
    by (induction vs) auto
  then show "x \<in> set (variables cw) \<Longrightarrow> dom_of (init_domains cw) x = words cw"
    by (simp add: dom_of_def init_domains_def)
qed

lemma domains_ok_initial: "domains_ok cw (enforce_node_consistency (init_domains cw))"
  by (simp add: domains_ok_def keys_ok_def keys_enforce_node_consistency node_consistent_enforce
      init_domains_def comp_def)

lemma ac3_queue_arc_consistent:
  assumes wf: "wf_crossword cw" and ok: "domains_ok cw d" and vq: "valid_queue cw queue"
    and l: "ac3_loop cw queue d = Inr d'"
    and cov: "\<forall>x \<in> set (variables cw). \<forall>y \<in> set (neighbors cw x).
                (x, y) \<in> set queue \<or> arc_ok cw d x y"
  shows "arc_consistent cw d'"
  using ac3_loop_arc_consistent [OF wf ok vq cov] l by auto

lemma order_domain_values_empty:
  "map_of d var = Some [] \<Longrightarrow> order_domain_values cw d var a = Inr []"
  by (simp add: order_domain_values_def getitem_def sort_by_def)

lemma backtrack_empty_domain:
  assumes wf: "wf_crossword cw" and ok: "domains_ok cw d"
    and var: "var \<in> set (variables cw)" and e: "dom_of d var = []"
  shows "backtrack cw d [] = Inr (None, d) \<and>
         (\<exists>v. select_unassigned_variable cw d [] = Inr (Some v) \<and>
              order_domain_values cw d v [] = Inr [])"
proof -
  from ok have k: "keys_ok cw d" by (simp add: domains_ok_def)
  from select_unassigned_variable_least [OF k var, of "[]"] obtain v where
    s: "select_unassigned_variable cw d [] = Inr (Some v)" and v: "v \<in> set (variables cw)"
    and l: "length (dom_of d v) \<le> length (dom_of d var)"
    using var by auto
  from l e have "dom_of d v = []" by simp
  with keys_ok_map_of [OF k v] have "map_of d v = Some []" by simp
  then have o: "order_domain_values cw d v [] = Inr []"
    by (rule order_domain_values_empty)
  from var have "\<not> assignment_complete cw []"
    by (auto simp: assignment_complete_def)
  with s o show ?thesis by simp
qed

subsection \<open>Assignments\<close>

lemma map_of_value_of: "v \<in> set (map fst a) \<Longrightarrow> map_of a v = Some (value_of a v)"
proof -
  assume "v \<in> set (map fst a)"
  then have "map_of a v \<noteq> None" by (simp add: map_of_eq_None_iff)
  then show ?thesis by (auto simp: value_of_def)
qed

lemma consistent_inner_ok:
  assumes wf: "wf_crossword cw" and g: "good_assignment cw a"
    and v1: "v1 \<in> set (variables cw)" and l1: "length w1 = var_length v1"
  shows "set vs \<subseteq> set (map fst a) \<Longrightarrow>
    consistent_inner cw a v1 w1 vs =
      Inr (\<forall>v2 \<in> set vs. v1 \<noteq> v2 \<longrightarrow>
             (case overlaps cw (v1, v2) of
                Some (Some (x, y)) \<Rightarrow> w1 ! x = value_of a v2 ! y
              | _ \<Rightarrow> True))"
proof (induction vs)
  case Nil
  show ?case by simp
next
  case (Cons v2 vs)
  from Cons.prems have k2: "v2 \<in> set (map fst a)" and sub: "set vs \<subseteq> set (map fst a)"
    by auto
  note ih = Cons.IH [OF sub]
  show ?case
  proof (cases "v1 = v2")
    case True
    with ih show ?thesis by simp
  next
    case False
    from g k2 have v2: "v2 \<in> set (variables cw)" and l2: "length (value_of a v2) = var_length v2"
      by (auto simp: good_assignment_def)
    from wf_overlap [OF wf v1 v2 False] obtain ov where ov: "overlaps cw (v1, v2) = Some ov"
      and b: "\<And>i j. ov = Some (i, j) \<Longrightarrow> i < var_length v1 \<and> j < var_length v2"
      by blast
    show ?thesis
    proof (cases ov)
      case None
      with ov ih False show ?thesis by simp
    next
      case (Some ij)
      obtain x y where ij: "ij = (x, y)" by (cases ij)
      from b Some ij have "x < length w1" and "y < length (value_of a v2)"
        using l1 l2 by auto
      then show ?thesis
        using ov Some ij ih False map_of_value_of [OF k2]
        by (auto simp: char_at_def)
    qed
  qed
qed

lemma consistent_outer_ok:
  assumes wf: "wf_crossword cw" and g: "good_assignment cw a"
  shows "set vs \<subseteq> set (map fst a) \<Longrightarrow>
    consistent_outer cw a vs =
      Inr (\<forall>v1 \<in> set vs. \<forall>v2 \<in> set (map fst a). v1 \<noteq> v2 \<longrightarrow>
             (case overlaps cw (v1, v2) of
                Some (Some (x, y)) \<Rightarrow> value_of a v1 ! x = value_of a v2 ! y
              | _ \<Rightarrow> True))"
proof (induction vs)
  case Nil
  show ?case by simp
next
  case (Cons v1 vs)
  from Cons.prems have k1: "v1 \<in> set (map fst a)" and sub: "set vs \<subseteq> set (map fst a)"
    by auto
  from g k1 have v1: "v1 \<in> set (variables cw)" and l1: "length (value_of a v1) = var_length v1"
    by (auto simp: good_assignment_def)
  have gi: "getitem a v1 = Inr (value_of a v1)"
    using map_of_value_of [OF k1] by (simp add: getitem_Inr)
  note inner = consistent_inner_ok [OF wf g v1 l1 subset_refl]
  note ih = Cons.IH [OF sub]
  show ?case
    using gi l1 inner ih by (auto split: bool.splits)
qed

lemma consistent_ok:
  "wf_crossword cw \<Longrightarrow> good_assignment cw a \<Longrightarrow> consistent cw a = Inr (overlaps_agree cw a)"
  using consistent_outer_ok [of cw a "map fst a"]
  by (simp add: consistent_def overlaps_agree_def)

lemma consistent_outer_True_length:
  "consistent_outer cw a vs = Inr True \<Longrightarrow> set vs \<subseteq> set (map fst a) \<Longrightarrow>
   \<forall>v \<in> set vs. length (value_of a v) = var_length v"
proof (induction vs)
  case Nil
  show ?case by simp
next
  case (Cons v vs)
  from Cons.prems(2) have k: "v \<in> set (map fst a)" by simp
  have gi: "getitem a v = Inr (value_of a v)"
    using map_of_value_of [OF k] by (simp add: getitem_Inr)
  from Cons.prems(1) gi have l: "length (value_of a v) = var_length v"
    by (auto split: if_splits)
  from Cons.prems(1) gi l have "consistent_outer cw a vs = Inr True"
    by (auto split: sum.splits bool.splits)
  with Cons.IH Cons.prems(2) l show ?case by simp
qed

lemma consistent_True_good:
  assumes "consistent cw a = Inr True" and "set (map fst a) \<subseteq> set (variables cw)"
  shows "good_assignment cw a"
  using consistent_outer_True_length [of cw a "map fst a"] assms
  by (simp add: consistent_def good_assignment_def)

subsection \<open>Value ordering\<close>

lemma count_values_ok:
  assumes "overlaps cw (var, neighbor) = Some ov"
    and "\<And>x y. ov = Some (x, y) \<Longrightarrow> x < length w \<and> (\<forall>nv \<in> set nvs. y < length nv)"
  shows "\<exists>n. count_values cw var neighbor w nvs c = Inr n"
  using assms(2)
proof (induction nvs arbitrary: c)
  case Nil
  show ?case by simp
next
  case (Cons nv nvs)
  show ?case
  proof (cases ov)
    case None
    with assms(1) Cons show ?thesis by simp
  next
    case (Some xy)
    obtain x y where xy: "xy = (x, y)" by (cases xy)
    from Cons.prems [of x y] Some xy have "x < length w" and "y < length nv"
      and "\<forall>nv \<in> set nvs. y < length nv"
      by auto
    moreover have "\<exists>n. count_values cw var neighbor w nvs c' = Inr n" for c'
      using Cons.prems by (intro Cons.IH) auto
    ultimately show ?thesis
      using assms(1) Some xy by (simp add: char_at_def)
  qed
qed

lemma count_neighbors_ok:
  assumes wf: "wf_crossword cw" and ok: "domains_ok cw d"
    and var: "var \<in> set (variables cw)" and w: "length w = var_length var"
  shows "set ns \<subseteq> set (neighbors cw var) \<Longrightarrow> \<exists>n. count_neighbors cw d a var w ns c = Inr n"
proof (induction ns arbitrary: c)
  case Nil
  show ?case by simp
next
  case (Cons nb ns)
  from ok have k: "keys_ok cw d" and nc: "node_consistent d"
    by (simp_all add: domains_ok_def)
  from Cons.prems have nb: "nb \<in> set (neighbors cw var)" and sub: "set ns \<subseteq> set (neighbors cw var)"
    by auto
  from wf_neighbor_overlap [OF wf var nb] obtain i j where
    nbv: "nb \<in> set (variables cw)" and ne: "var \<noteq> nb"
    and o: "overlaps cw (var, nb) = Some (Some (i, j))"
    by blast
  from wf_overlap [OF wf var nbv ne] o have b: "i < var_length var" "j < var_length nb"
    by auto
  have gi: "getitem d nb = Inr (dom_of d nb)"
    using keys_ok_map_of [OF k nbv] by (simp add: getitem_Inr)
  have "\<exists>n. count_values cw var nb w (dom_of d nb) c = Inr n"
  proof (rule count_values_ok [OF o])
    fix x y
    assume "Some (i, j) = Some (x, y)"
    with b w show "x < length w \<and> (\<forall>nv \<in> set (dom_of d nb). y < length nv)"
      using node_consistent_dom_of [OF nc] by auto
  qed
  then obtain n where n: "count_values cw var nb w (dom_of d nb) c = Inr n" ..
  from Cons.IH [OF sub] obtain m where "count_neighbors cw d a var w ns n = Inr m" ..
  moreover from Cons.IH [OF sub] obtain m' where "count_neighbors cw d a var w ns c = Inr m'" ..
  ultimately show ?case using gi n by auto
qed

lemma sort_by_total:
  assumes "\<forall>v \<in> set vs. \<exists>n. f v = Inr n"
  shows "\<exists>ws. sort_by f vs = Inr ws \<and> set ws = set vs"
proof -
  from assms have "\<forall>v \<in> set vs. f v = Inr (projr (f v))" by auto
  then have "sort_by f vs = Inr (sort_key (\<lambda>v. projr (f v)) vs)"
    by (rule sort_by_ok)
  then show ?thesis by simp
qed

lemma order_domain_values_ok:
  assumes wf: "wf_crossword cw" and ok: "domains_ok cw d" and var: "var \<in> set (variables cw)"
  shows "\<exists>vals. order_domain_values cw d var a = Inr vals \<and> set vals = set (dom_of d var)"
proof -
  from ok have k: "keys_ok cw d" and nc: "node_consistent d"
    by (simp_all add: domains_ok_def)
  have gi: "getitem d var = Inr (dom_of d var)"
    using keys_ok_map_of [OF k var] by (simp add: getitem_Inr)
  have "\<forall>w \<in> set (dom_of d var). \<exists>n. count_constrained_values cw d a var w = Inr n"
    unfolding count_constrained_values_def
    using count_neighbors_ok [OF wf ok var node_consistent_dom_of [OF nc] subset_refl]
    by blast
  from sort_by_total [OF this] gi show ?thesis
    by (simp add: order_domain_values_def)
qed

subsection \<open>Extending and shrinking an assignment\<close>

lemma value_of_update:
  "value_of (AList.update var w a) v = (if v = var then w else value_of a v)"
  by (simp add: value_of_def AList.update_conv')

lemma value_of_delete:
  "v \<noteq> var \<Longrightarrow> value_of (AList.delete var a) v = value_of a v"
  by (simp add: value_of_def AList.delete_conv')

lemma set_keys_update: "set (map fst (AList.update var w a)) = insert var (set (map fst a))"
  using keys_update [of var w a] by simp

lemma set_keys_delete: "set (map fst (AList.delete var a)) = set (map fst a) - {var}"
  using keys_delete [of var a] by simp

lemma good_assignment_update:
  assumes "good_assignment cw a" and "var \<in> set (variables cw)" and "length w = var_length var"
  shows "good_assignment cw (AList.update var w a)"
  using assms unfolding good_assignment_def set_keys_update
  by (auto simp: value_of_update)

lemma good_assignment_delete:
  assumes "good_assignment cw a"
  shows "good_assignment cw (AList.delete var a)"
  using assms unfolding good_assignment_def set_keys_delete
  by (auto simp: value_of_delete)

lemma good_assignment_empty: "good_assignment cw []"
  by (simp add: good_assignment_def)

subsection \<open>The search on arc-consistent domains\<close>

lemma agrees_overlaps_agree:
  assumes "solution_in cw d sol" and "good_assignment cw a" and "agrees a sol"
  shows "overlaps_agree cw a"
proof -
  from assms(1,2) have sub: "set (map fst a) \<subseteq> set (map fst sol)"
    by (simp add: solution_in_def good_assignment_def)
  from assms(1) have oa: "overlaps_agree cw sol" by (simp add: solution_in_def)
  show ?thesis
    unfolding overlaps_agree_def
  proof (intro ballI impI)
    fix v1 v2
    assume k1: "v1 \<in> set (map fst a)" and k2: "v2 \<in> set (map fst a)" and ne: "v1 \<noteq> v2"
    with sub have "v1 \<in> set (map fst sol)" "v2 \<in> set (map fst sol)" by auto
    with oa ne have "case overlaps cw (v1, v2) of
           Some (Some (x, y)) \<Rightarrow> value_of sol v1 ! x = value_of sol v2 ! y
         | _ \<Rightarrow> True"
      unfolding overlaps_agree_def by blast
    moreover from assms(3) k1 k2 have "value_of a v1 = value_of sol v1" "value_of a v2 = value_of sol v2"
      by (auto simp: agrees_def)
    ultimately show "case overlaps cw (v1, v2) of
           Some (Some (x, y)) \<Rightarrow> value_of a v1 ! x = value_of a v2 ! y
         | _ \<Rightarrow> True"
      by (auto split: option.splits)
  qed
qed

lemma solution_in_no_empty_domain: "solution_in cw d sol \<Longrightarrow> no_empty_domain cw d"
  by (fastforce simp: solution_in_def no_empty_domain_def)

lemma agrees_update:
  "agrees a sol \<Longrightarrow> agrees (AList.update var (value_of sol var) a) sol"
  unfolding agrees_def set_keys_update by (auto simp: value_of_update)

lemma delete_update_unassigned:
  "var \<notin> set (map fst a) \<Longrightarrow> AList.delete var (AList.update var w a) = a"
  by (simp add: AList.delete_update_same)

lemma incomplete_unassigned:
  assumes "\<not> assignment_complete cw a" and "good_assignment cw a"
  shows "\<exists>u \<in> set (variables cw). u \<notin> set (map fst a)"
  using assms unfolding assignment_complete_def good_assignment_def by blast

lemma backtrack_search:
  "search_state cw d \<longrightarrow> good_assignment cw a \<longrightarrow>
     (\<exists>r. backtrack cw d a = Inr (r, d) \<and>
          (\<forall>sol. solution_in cw d sol \<and> agrees a sol \<longrightarrow> r \<noteq> None))"
  "search_state cw d \<longrightarrow> good_assignment cw a \<longrightarrow> var \<in> set (variables cw) \<longrightarrow>
   (\<forall>w \<in> set vals. length w = var_length var) \<longrightarrow>
     (\<exists>r. backtrack_loop cw d a var vals = Inr (r, d) \<and>
          (\<forall>sol. solution_in cw d sol \<and> agrees a sol \<and> var \<notin> set (map fst a) \<and>
                 value_of sol var \<in> set vals \<longrightarrow> r \<noteq> None))"
proof (induction cw d a and cw d a var vals rule: backtrack_backtrack_loop.induct)
  case (1 cw d a)
  show ?case
  proof (intro impI)
    assume st: "search_state cw d" and ga: "good_assignment cw a"
    from st have wf: "wf_crossword cw" and ok: "domains_ok cw d"
      by (simp_all add: search_state_def)
    from ok have k: "keys_ok cw d" and nc: "node_consistent d"
      by (simp_all add: domains_ok_def)
    show "\<exists>r. backtrack cw d a = Inr (r, d) \<and>
          (\<forall>sol. solution_in cw d sol \<and> agrees a sol \<longrightarrow> r \<noteq> None)"
    proof (cases "assignment_complete cw a")
      case True
      then show ?thesis by simp
    next
      case False
      from incomplete_unassigned [OF False ga] obtain u where
        "u \<in> set (variables cw)" "u \<notin> set (map fst a)" by blast
      from select_unassigned_variable_least [OF k this] obtain var where
        s: "select_unassigned_variable cw d a = Inr (Some var)"
        and var: "var \<in> set (variables cw)" and un: "var \<notin> set (map fst a)"
        by blast
      from order_domain_values_ok [OF wf ok var] obtain vals where
        o: "order_domain_values cw d var a = Inr vals" and sv: "set vals = set (dom_of d var)"
        by blast
      have len: "\<forall>w \<in> set vals. length w = var_length var"
        using sv node_consistent_dom_of [OF nc] by blast
      from "1.IH" [OF False s refl o, THEN mp, OF st, THEN mp, OF ga, THEN mp, OF var,
          THEN mp, OF len]
      obtain r where
        l: "backtrack_loop cw d a var vals = Inr (r, d)"
        and c: "\<forall>sol. solution_in cw d sol \<and> agrees a sol \<and> var \<notin> set (map fst a) \<and>
                 value_of sol var \<in> set vals \<longrightarrow> r \<noteq> None"
        by (elim exE conjE)
      have b: "backtrack cw d a = Inr (r, d)"
        using False s o l by simp
      have "r \<noteq> None" if "solution_in cw d sol" "agrees a sol" for sol
      proof -
        from that(1) var have "value_of sol var \<in> set (dom_of d var)"
          by (simp add: solution_in_def)
        with sv that un c show ?thesis by blast
      qed
      with b show ?thesis by blast
    qed
  qed
next
  case (2 cw d a var)
  show ?case by simp
next
  case (3 cw d a var "value" vals)
  show ?case
  proof (intro impI)
    assume st: "search_state cw d" and ga: "good_assignment cw a"
      and var: "var \<in> set (variables cw)"
      and lens: "\<forall>w \<in> set (value # vals). length w = var_length var"
    from st have wf: "wf_crossword cw" and ok: "domains_ok cw d" and ac: "arc_consistent cw d"
      by (simp_all add: search_state_def)
    from lens have lv: "length value = var_length var"
      and len: "\<forall>w \<in> set vals. length w = var_length var"
      by auto
    let ?a1 = "AList.update var value a"
    let ?a2 = "AList.delete var ?a1"
    have ga1: "good_assignment cw ?a1"
      by (rule good_assignment_update [OF ga var lv])
    have ga2: "good_assignment cw ?a2"
      by (rule good_assignment_delete [OF ga1])
    have cons: "consistent cw a = Inr (overlaps_agree cw a)"
      by (rule consistent_ok [OF wf ga])
    have a3: "ac3 cw None d = Inr (no_empty_domain cw d, d)"
      by (rule ac3_fixed [OF wf ok ac])
    let ?goal = "\<lambda>r. backtrack_loop cw d a var (value # vals) = Inr (r, d) \<and>
          (\<forall>sol. solution_in cw d sol \<and> agrees a sol \<and> var \<notin> set (map fst a) \<and>
                 value_of sol var \<in> set (value # vals) \<longrightarrow> r \<noteq> None)"
    show "\<exists>r. ?goal r"
    proof (cases "overlaps_agree cw a")
      case False
      then have cF: "overlaps_agree cw a = False" by simp
      from "3.IH"(4) [OF cons cF, THEN mp, OF st, THEN mp, OF ga, THEN mp, OF var,
          THEN mp, OF len]
      obtain r where
        l: "backtrack_loop cw d a var vals = Inr (r, d)"
        by (elim exE conjE)
      have "backtrack_loop cw d a var (value # vals) = Inr (r, d)"
        using cons False l by simp
      moreover have False if "solution_in cw d sol" "agrees a sol" for sol
        using agrees_overlaps_agree [OF that(1) ga that(2)] False by simp
      ultimately have "?goal r" by blast
      then show ?thesis ..
    next
      case True
      then have cT: "overlaps_agree cw a = True" by simp
      show ?thesis
      proof (cases "no_empty_domain cw d")
        case False
        then have okF: "no_empty_domain cw d = False" by simp
        from "3.IH"(3) [OF cons cT a3 refl okF, THEN mp, OF st, THEN mp, OF ga2, THEN mp, OF var,
            THEN mp, OF len]
        obtain r where
          l: "backtrack_loop cw d ?a2 var vals = Inr (r, d)"
          by (elim exE conjE)
        have "backtrack_loop cw d a var (value # vals) = Inr (r, d)"
          using cons True a3 False l by simp
        moreover have False if "solution_in cw d sol" for sol
          using solution_in_no_empty_domain [OF that] False by simp
        ultimately have "?goal r" by blast
        then show ?thesis ..
      next
        case ne: True
        then have okT: "no_empty_domain cw d = True" by simp
        from "3.IH"(1) [OF cons cT a3 refl okT, THEN mp, OF st, THEN mp, OF ga1]
        obtain r1 where
          b1: "backtrack cw d ?a1 = Inr (r1, d)"
          and c1: "\<forall>sol. solution_in cw d sol \<and> agrees ?a1 sol \<longrightarrow> r1 \<noteq> None"
          by (elim exE conjE)
        show ?thesis
        proof (cases r1)
          case (Some res)
          have "backtrack_loop cw d a var (value # vals) = Inr (Some res, d)"
            using cons True a3 ne b1 Some by simp
          then have "?goal (Some res)" by simp
          then show ?thesis ..
        next
          case None
          from "3.IH"(2) [OF cons cT a3 refl okT b1 refl None, THEN mp, OF st, THEN mp, OF ga2,
              THEN mp, OF var, THEN mp, OF len]
          obtain r where
            l: "backtrack_loop cw d ?a2 var vals = Inr (r, d)"
            and c2: "\<forall>sol. solution_in cw d sol \<and> agrees ?a2 sol \<and> var \<notin> set (map fst ?a2) \<and>
                 value_of sol var \<in> set vals \<longrightarrow> r \<noteq> None"
            by (elim exE conjE)
          have run: "backtrack_loop cw d a var (value # vals) = Inr (r, d)"
            using cons True a3 ne b1 None l by simp
          have "r \<noteq> None"
            if s: "solution_in cw d sol" and ag: "agrees a sol"
              and un: "var \<notin> set (map fst a)" and m: "value_of sol var \<in> set (value # vals)"
            for sol
          proof (cases "value = value_of sol var")
            case True
            with agrees_update [OF ag, of var] have "agrees ?a1 sol" by simp
            with c1 s None show ?thesis by blast
          next
            case False
            with m have mv: "value_of sol var \<in> set vals" by auto
            have e: "?a2 = a" by (rule delete_update_unassigned [OF un])
            from s ag un mv show ?thesis
              by (intro c2 [unfolded e, rule_format] conjI)
          qed
          with run have "?goal r" by blast
          then show ?thesis ..
        qed
      qed
    qed
  qed
qed

subsection \<open>Propagation keeps every solution\<close>

lemma solution_in_pruned:
  assumes s: "solution_in cw e sol" and x: "x \<in> set (variables cw)"
    and y: "y \<in> set (variables cw)" and xy: "x \<noteq> y"
  shows "value_of sol x \<in> set (pruned cw e x y)"
proof -
  from s x y have mx: "value_of sol x \<in> set (dom_of e x)" and my: "value_of sol y \<in> set (dom_of e y)"
    by (simp_all add: solution_in_def)
  from s x y have kx: "x \<in> set (map fst sol)" and ky: "y \<in> set (map fst sol)"
    by (simp_all add: solution_in_def)
  from s have "overlaps_agree cw sol" by (simp add: solution_in_def)
  with kx ky xy have a: "case overlaps cw (x, y) of
           Some (Some (i, j)) \<Rightarrow> value_of sol x ! i = value_of sol y ! j
         | _ \<Rightarrow> True"
    unfolding overlaps_agree_def by blast
  show ?thesis
  proof (cases "overlaps cw (x, y)")
    case None
    with mx show ?thesis by (simp add: pruned_def)
  next
    case (Some ov)
    show ?thesis
    proof (cases ov)
      case None
      with Some mx show ?thesis by (simp add: pruned_def)
    next
      case (Some ij)
      obtain i j where ij: "ij = (i, j)" by (cases ij)
      from a \<open>overlaps cw (x, y) = Some ov\<close> Some ij
      have "value_of sol x ! i = value_of sol y ! j" by simp
      with my have "\<exists>v \<in> set (dom_of e y). value_of sol x ! i = v ! j" by blast
      with mx \<open>overlaps cw (x, y) = Some ov\<close> Some ij show ?thesis
        by (simp add: pruned_def)
    qed
  qed
qed

lemma ac3_loop_keeps_solution:
  assumes wf: "wf_crossword cw" and ok: "domains_ok cw d" and vq: "valid_queue cw queue"
    and s: "solution_in cw d sol" and l: "ac3_loop cw queue d = Inr d'"
  shows "solution_in cw d' sol"
proof -
  let ?I = "\<lambda>e (q :: (variable \<times> variable) list). solution_in cw e sol"
  have step: "\<forall>e x y q. domains_ok cw e \<and> valid_queue cw ((x, y) # q) \<and> ?I e ((x, y) # q) \<longrightarrow>
      ?I (AList.update x (pruned cw e x y) e) (requeue cw e x y q)"
  proof (intro allI impI, elim conjE)
    fix e x y and q :: "(variable \<times> variable) list"
    assume v: "valid_queue cw ((x, y) # q)" and se: "solution_in cw e sol"
    from v have x: "x \<in> set (variables cw)" and y: "y \<in> set (variables cw)" and xy: "x \<noteq> y"
      by (auto simp: valid_queue_def)
    have "value_of sol x \<in> set (pruned cw e x y)"
      by (rule solution_in_pruned [OF se x y xy])
    with se show "solution_in cw (AList.update x (pruned cw e x y) e) sol"
      by (simp add: solution_in_def dom_of_update)
  qed
  from ac3_loop_rule [where I = ?I, OF wf step ok vq s] l show ?thesis by auto
qed

lemma ac3_default_keeps_solution:
  assumes wf: "wf_crossword cw" and ok: "domains_ok cw d"
    and s: "solution_in cw d sol" and a: "ac3 cw None d = Inr (b, d')"
  shows "solution_in cw d' sol"
proof -
  from a have "ac3_loop cw (all_arcs cw) d = Inr d'"
    by (auto simp: ac3_def split: sum.splits bool.splits)
  then show ?thesis
    by (rule ac3_loop_keeps_solution [OF wf ok valid_queue_all_arcs [OF wf] s])
qed

lemma solution_in_initial:
  assumes wf: "wf_crossword cw" and c: "assignment_complete cw sol"
    and t: "consistent cw sol = Inr True" and w: "snd ` set sol \<subseteq> set (words cw)"
  shows "solution_in cw (enforce_node_consistency (init_domains cw)) sol"
proof -
  from c have keys: "set (map fst sol) = set (variables cw)"
    by (simp add: assignment_complete_def)
  with t have g: "good_assignment cw sol"
    by (intro consistent_True_good) simp_all
  from consistent_ok [OF wf g] t have oa: "overlaps_agree cw sol" by simp
  have "value_of sol v \<in> set (dom_of (enforce_node_consistency (init_domains cw)) v)"
    if v: "v \<in> set (variables cw)" for v
  proof -
    from v keys have k: "v \<in> set (map fst sol)" by simp
    from map_of_value_of [OF k] have "(v, value_of sol v) \<in> set sol"
      by (rule map_of_SomeD)
    then have "value_of sol v \<in> snd ` set sol" by force
    with w have "value_of sol v \<in> set (words cw)" by blast
    moreover from g k have "length (value_of sol v) = var_length v"
      unfolding good_assignment_def by blast
    ultimately show ?thesis
      using v by (simp add: dom_of_enforce_node_consistency dom_of_init_domains)
  qed
  with keys g oa show ?thesis by (simp add: solution_in_def)
qed

lemma search_state_after_ac3:
  assumes wf: "wf_crossword cw" and ok: "domains_ok cw d" and a: "ac3 cw None d = Inr (b, d')"
  shows "search_state cw d'"
  using ac3_default [OF wf ok] a wf by (auto simp: search_state_def)

lemma wf_grid3: "wf_crossword grid3"
  by code_simp

lemma wf_grid2: "wf_crossword grid2"
  by code_simp

section \<open>Claims\<close>

text \<open>
  C1 (soundness) fails on the code. On the grid with three slots \<open>solve\<close> returns a
  complete assignment that its own consistency checker rejects, although a complete
  consistent assignment of vocabulary words exists: \<open>backtrack\<close> calls
  \<open>consistent\<close> on the assignment before the candidate is added, so the word of
  the slot assigned last is never checked.
\<close>

theorem solve_returns_inconsistent_assignment:
  "solve grid3 = Inr (Some [(slot_A, ''AX''), (slot_B, ''BXBB''), (slot_C, ''XCY'')]) \<and>
   assignment_complete grid3 [(slot_A, ''AX''), (slot_B, ''BXBB''), (slot_C, ''XCY'')] \<and>
   consistent grid3 [(slot_A, ''AX''), (slot_B, ''BXBB''), (slot_C, ''XCY'')] = Inr False \<and>
   consistent grid3 [(slot_A, ''AX''), (slot_B, ''BYBB''), (slot_C, ''XCY'')] = Inr True"
  by code_simp

text \<open>
  C2 (completeness). On a well-formed crossword, if some assignment of vocabulary
  words is complete and passes the consistency checker, then \<open>solve\<close> returns an
  assignment and not \<open>None\<close>.
\<close>

theorem solve_complete:
  assumes "wf_crossword cw" and "assignment_complete cw sol"
    and "consistent cw sol = Inr True" and "snd ` set sol \<subseteq> set (words cw)"
  shows "\<exists>a. solve cw = Inr (Some a)"
proof -
  let ?d0 = "enforce_node_consistency (init_domains cw)"
  have ok0: "domains_ok cw ?d0" by (rule domains_ok_initial)
  have s0: "solution_in cw ?d0 sol"
    by (rule solution_in_initial [OF assms])
  from ac3_default [OF assms(1) ok0] obtain d where
    a: "ac3 cw None ?d0 = Inr (no_empty_domain cw d, d)"
    by blast
  have st: "search_state cw d"
    by (rule search_state_after_ac3 [OF assms(1) ok0 a])
  have s: "solution_in cw d sol"
    by (rule ac3_default_keeps_solution [OF assms(1) ok0 s0 a])
  have ag: "agrees [] sol" by (simp add: agrees_def)
  from backtrack_search(1) [of cw d "[]", THEN mp, OF st, THEN mp, OF good_assignment_empty]
  obtain r where b: "backtrack cw d [] = Inr (r, d)"
    and c: "\<forall>sol. solution_in cw d sol \<and> agrees [] sol \<longrightarrow> r \<noteq> None"
    by (elim exE conjE)
  from c s ag have "r \<noteq> None" by blast
  then obtain res where "r = Some res" by auto
  with a b have "solve cw = Inr (Some res)" by (simp add: solve_def)
  then show ?thesis ..
qed

theorem solve_complete_witness:
  "wf_crossword grid3 \<and>
   assignment_complete grid3 [(slot_A, ''AX''), (slot_B, ''BYBB''), (slot_C, ''XCY'')] \<and>
   consistent grid3 [(slot_A, ''AX''), (slot_B, ''BYBB''), (slot_C, ''XCY'')] = Inr True \<and>
   snd ` set [(slot_A, ''AX''), (slot_B, ''BYBB''), (slot_C, ''XCY'')] \<subseteq> set (words grid3) \<and>
   (\<exists>a. solve grid3 = Inr (Some a))"
proof -
  have h1: "wf_crossword grid3" by (rule wf_grid3)
  have h2: "assignment_complete grid3 [(slot_A, ''AX''), (slot_B, ''BYBB''), (slot_C, ''XCY'')]"
    by code_simp
  have h3: "consistent grid3 [(slot_A, ''AX''), (slot_B, ''BYBB''), (slot_C, ''XCY'')] = Inr True"
    by code_simp
  have h4: "snd ` set [(slot_A, ''AX''), (slot_B, ''BYBB''), (slot_C, ''XCY'')]
              \<subseteq> set (words grid3)"
    by code_simp
  from solve_complete [OF h1 h2 h3 h4] h1 h2 h3 h4 show ?thesis by blast
qed

text \<open>
  C3 (tentative check) fails on the code. With \<open>slot_D\<close> assigned \<open>CAT\<close>, the
  loop of \<open>backtrack\<close> for \<open>slot_E\<close> tries the candidate \<open>CAT\<close>: the checker
  accepts the assignment without the candidate, which is all the loop asks, the
  candidate is added and the assignment with it is returned, although the checker
  rejects that assignment.
\<close>

theorem backtrack_adds_inconsistent_candidate:
  "ac3 grid2 None (enforce_node_consistency (init_domains grid2)) = Inr (True, domains_C3) \<and>
   consistent grid2 [(slot_D, ''CAT'')] = Inr True \<and>
   consistent grid2 (AList.update slot_E ''CAT'' [(slot_D, ''CAT'')]) = Inr False \<and>
   backtrack_loop grid2 domains_C3 [(slot_D, ''CAT'')] slot_E [''CAT'', ''ACT''] =
     Inr (Some (AList.update slot_E ''CAT'' [(slot_D, ''CAT'')]), domains_C3) \<and>
   solve grid2 = Inr (Some [(slot_D, ''CAT''), (slot_E, ''CAT'')])"
  by code_simp

text \<open>
  C4 (backtrack restoration). For every step of \<open>backtrack\<close>, as the claim states
  it, the claim fails: the code keeps no copy of the domains and undoes nothing. On
  the grid with three slots, with node-consistent domains that are not arc-consistent
  and \<open>slot_A\<close> assigned \<open>AQ\<close>, the loop tries \<open>XCY\<close> for \<open>slot_C\<close>; \<open>ac3\<close>
  removes \<open>AQ\<close> and \<open>BXBB\<close>, the branch fails, and the loop returns \<open>None\<close>
  with the two words still removed.
\<close>

theorem backtrack_restores_domains_counterexample:
  "domains_ok grid3 domains_C4 \<and> good_assignment grid3 [(slot_A, ''AQ'')] \<and>
   backtrack_loop grid3 domains_C4 [(slot_A, ''AQ'')] slot_C [''XCY''] =
     Inr (None, domains_C4') \<and>
   backtrack grid3 domains_C4 [(slot_A, ''AQ'')] = Inr (None, domains_C4') \<and>
   domains_C4' \<noteq> domains_C4"
  by code_simp

text \<open>
  C4, amended. On a well-formed crossword, let the domains \<open>d\<close>, one per slot and
  node-consistent, be arc-consistent when a step of \<open>backtrack\<close> is entered. For
  every assignment of words of the right length to slots, every slot \<open>var\<close> and
  every candidate \<open>w\<close> of its length, the loop of \<open>backtrack\<close> run on the single
  candidate \<open>w\<close> returns with the domains equal to \<open>d\<close>, whether the candidate
  led to a result or not; so does the loop on any list of candidates, and so does
  every call of \<open>backtrack\<close>. The domains with which \<open>solve\<close> starts the search,
  those left by \<open>ac3\<close> after node consistency, are of that kind, so every step of
  a run of \<open>solve\<close> is covered. The domains come back unchanged because \<open>ac3\<close>
  removes nothing from arc-consistent domains, not because anything is restored.
\<close>

theorem backtrack_restores_domains:
  assumes "wf_crossword cw" and "domains_ok cw d" and "arc_consistent cw d"
    and "good_assignment cw a" and "var \<in> set (variables cw)"
    and "length w = var_length var" and "\<forall>v \<in> set vals. length v = var_length var"
  shows "(\<exists>r. backtrack_loop cw d a var [w] = Inr (r, d)) \<and>
         (\<exists>r. backtrack_loop cw d a var vals = Inr (r, d)) \<and>
         (\<exists>r. backtrack cw d a = Inr (r, d)) \<and>
         (\<forall>b d1. ac3 cw None (enforce_node_consistency (init_domains cw)) = Inr (b, d1) \<longrightarrow>
            domains_ok cw d1 \<and> arc_consistent cw d1)"
proof -
  have st: "search_state cw d"
    using assms(1-3) by (simp add: search_state_def)
  have l: "\<exists>r. backtrack_loop cw d a var vs = Inr (r, d)"
    if "\<forall>v \<in> set vs. length v = var_length var" for vs
    using backtrack_search(2) [of cw d a var vs, THEN mp, OF st, THEN mp, OF assms(4),
        THEN mp, OF assms(5), THEN mp, OF that]
    by (elim exE conjE) (rule exI)
  have "\<exists>r. backtrack cw d a = Inr (r, d)"
    using backtrack_search(1) [of cw d a, THEN mp, OF st, THEN mp, OF assms(4)]
    by (elim exE conjE) (rule exI)
  moreover have "\<exists>r. backtrack_loop cw d a var [w] = Inr (r, d)"
    using assms(6) by (intro l) simp
  moreover have "\<exists>r. backtrack_loop cw d a var vals = Inr (r, d)"
    by (rule l [OF assms(7)])
  moreover have "domains_ok cw d1 \<and> arc_consistent cw d1"
    if "ac3 cw None (enforce_node_consistency (init_domains cw)) = Inr (b, d1)" for b d1
    using search_state_after_ac3 [OF assms(1) domains_ok_initial that]
    by (simp add: search_state_def)
  ultimately show ?thesis by blast
qed

theorem backtrack_restores_domains_witness:
  "wf_crossword grid3 \<and> domains_ok grid3 domains_C4' \<and> arc_consistent grid3 domains_C4' \<and>
   ac3 grid3 None domains_C4 = Inr (True, domains_C4') \<and>
   good_assignment grid3 [(slot_A, ''AY'')] \<and> slot_C \<in> set (variables grid3) \<and>
   length ''XCY'' = var_length slot_C \<and> length ''YCX'' = var_length slot_C \<and>
   backtrack_loop grid3 domains_C4' [(slot_A, ''AY'')] slot_C [''XCY''] =
     Inr (None, domains_C4') \<and>
   (\<exists>r. backtrack_loop grid3 domains_C4' [(slot_A, ''AY'')] slot_C [''XCY'', ''YCX''] =
     Inr (r, domains_C4')) \<and>
   (\<exists>r. backtrack grid3 domains_C4' [(slot_A, ''AY'')] = Inr (r, domains_C4')) \<and>
   ac3 grid3 None (enforce_node_consistency (init_domains grid3)) =
     Inr (True, enforce_node_consistency (init_domains grid3)) \<and>
   arc_consistent grid3 (enforce_node_consistency (init_domains grid3))"
proof -
  have h1: "wf_crossword grid3" by (rule wf_grid3)
  have h2: "domains_ok grid3 domains_C4'" by code_simp
  have h3: "arc_consistent grid3 domains_C4'" by code_simp
  have h4: "good_assignment grid3 [(slot_A, ''AY'')]" by code_simp
  have h5: "slot_C \<in> set (variables grid3)" by code_simp
  have h6: "length ''XCY'' = var_length slot_C" by code_simp
  have h6': "length ''YCX'' = var_length slot_C" by code_simp
  from h6 h6' have h7: "\<forall>v \<in> set [''XCY'', ''YCX'']. length v = var_length slot_C"
    by simp
  have p: "ac3 grid3 None domains_C4 = Inr (True, domains_C4')" by code_simp
  have e: "backtrack_loop grid3 domains_C4' [(slot_A, ''AY'')] slot_C [''XCY''] =
             Inr (None, domains_C4')"
    by code_simp
  have s: "ac3 grid3 None (enforce_node_consistency (init_domains grid3)) =
     Inr (True, enforce_node_consistency (init_domains grid3))"
    by code_simp
  note t = backtrack_restores_domains [OF h1 h2 h3 h4 h5 h6 h7]
  from t have l: "\<exists>r. backtrack_loop grid3 domains_C4' [(slot_A, ''AY'')] slot_C
      [''XCY'', ''YCX''] = Inr (r, domains_C4')"
    by blast
  from t have b: "\<exists>r. backtrack grid3 domains_C4' [(slot_A, ''AY'')] = Inr (r, domains_C4')"
    by blast
  from t s have a: "arc_consistent grid3 (enforce_node_consistency (init_domains grid3))"
    by blast
  from h1 h2 h3 p h4 h5 h6 h6' e l b s a show ?thesis by blast
qed

text \<open>
  C5 (return contract of AC-3). As the claim states it, for every initial queue, the
  claim fails: with the empty list as queue \<open>ac3\<close> revises nothing and returns
  \<open>True\<close> on domains that are not arc-consistent.
\<close>

theorem ac3_contract_counterexample:
  "ac3 grid3 (Some []) domains_C5 = Inr (True, domains_C5) \<and>
   \<not> arc_consistent grid3 domains_C5"
  by code_simp

text \<open>
  C5, amended. On a well-formed crossword, with one domain per slot holding only words
  of the slot's length, and an initial queue of arcs between distinct slots (the
  default queue is one), \<open>ac3\<close> returns normally, domains only lose words, and the
  result is \<open>True\<close> exactly when no slot's domain is empty at the end. If every arc
  between neighbouring slots is in the initial queue or already consistent, as with
  the default queue, then the domains at the end are arc-consistent.
\<close>

theorem ac3_contract:
  assumes "wf_crossword cw" and "domains_ok cw d"
    and "queue = (case arcs of Some q \<Rightarrow> q | None \<Rightarrow> all_arcs cw)"
    and "valid_queue cw queue"
  shows "\<exists>d'. ac3 cw arcs d = Inr (no_empty_domain cw d', d') \<and> shrinks d' d \<and>
           ((\<forall>x \<in> set (variables cw). \<forall>y \<in> set (neighbors cw x).
               (x, y) \<in> set queue \<or> arc_ok cw d x y) \<longrightarrow> arc_consistent cw d') \<and>
           (arcs = None \<longrightarrow> arc_consistent cw d')"
proof -
  from ac3_loop_shrinks [OF assms(1,2,4)] obtain d' where
    l: "ac3_loop cw queue d = Inr d'" and ok': "domains_ok cw d'" and s: "shrinks d' d"
    by blast
  from ok' have "keys_ok cw d'" by (simp add: domains_ok_def)
  with l assms(3) have r: "ac3 cw arcs d = Inr (no_empty_domain cw d', d')"
    by (intro ac3_result) simp_all
  have c: "arc_consistent cw d'"
    if "\<forall>x \<in> set (variables cw). \<forall>y \<in> set (neighbors cw x).
               (x, y) \<in> set queue \<or> arc_ok cw d x y"
    by (rule ac3_queue_arc_consistent [OF assms(1,2,4) l that])
  have "arc_consistent cw d'" if "arcs = None"
    using that assms(3) by (intro c) (simp add: all_arcs_iff)
  with r s c show ?thesis by blast
qed

theorem ac3_contract_witness:
  "wf_crossword grid3 \<and> domains_ok grid3 domains_C5 \<and> valid_queue grid3 (all_arcs grid3) \<and>
   (\<exists>d'. ac3 grid3 None domains_C5 = Inr (no_empty_domain grid3 d', d') \<and>
      shrinks d' domains_C5 \<and> arc_consistent grid3 d')"
proof -
  have h1: "wf_crossword grid3" by (rule wf_grid3)
  have h2: "domains_ok grid3 domains_C5" by code_simp
  have h3: "all_arcs grid3 = (case None of Some q \<Rightarrow> q | None \<Rightarrow> all_arcs grid3)" by simp
  have h4: "valid_queue grid3 (all_arcs grid3)" by code_simp
  from ac3_contract [OF h1 h2 h3 h4] h1 h2 h4 show ?thesis by auto
qed

text \<open>
  C6 (revise contract). For two distinct slots \<open>x\<close> and \<open>y\<close> with domains \<open>dx\<close> and
  \<open>dy\<close>, an entry \<open>ov\<close> for \<open>(x, y)\<close> in the overlaps and words long enough for the
  overlap indices, \<open>revise\<close> returns normally. The domain of \<open>x\<close> becomes \<open>dx\<close>
  without exactly the words that no word of \<open>dy\<close> agrees with at the overlap indices,
  every other domain and the keys stay as they were, the result is \<open>True\<close> exactly
  when a word left the domain of \<open>x\<close>, and without an overlap the call returns
  \<open>False\<close> and changes nothing.
\<close>

theorem revise_contract:
  assumes "x \<noteq> y" and "map_of d x = Some dx" and "map_of d y = Some dy"
    and "overlaps cw (x, y) = Some ov"
    and "\<forall>i j. ov = Some (i, j) \<longrightarrow>
           (\<forall>w \<in> set dx. i < length w) \<and> (\<forall>v \<in> set dy. j < length v)"
  shows "\<exists>revised d'. revise cw d x y = Inr (revised, d') \<and>
           map fst d' = map fst d \<and>
           (\<forall>z. z \<noteq> x \<longrightarrow> map_of d' z = map_of d z) \<and>
           map_of d' x =
             Some (case ov of
                     None \<Rightarrow> dx
                   | Some (i, j) \<Rightarrow> filter (\<lambda>w. \<exists>v \<in> set dy. w ! i = v ! j) dx) \<and>
           (revised \<longleftrightarrow> (\<exists>w \<in> set dx. w \<notin> set (dom_of d' x))) \<and>
           (ov = None \<longrightarrow> \<not> revised \<and> d' = d)"
proof -
  let ?P = "pruned cw d x y"
  let ?d' = "AList.update x ?P d"
  have r: "revise cw d x y = Inr (?P \<noteq> dom_of d x, ?d')"
    using assms(5) by (intro revise_ok [OF assms(1-4)]) simp
  have dx: "dom_of d x = dx" and dy: "dom_of d y = dy"
    using assms(2,3) by (simp_all add: dom_of_def)
  have P: "?P = (case ov of
                     None \<Rightarrow> dx
                   | Some (i, j) \<Rightarrow> filter (\<lambda>w. \<exists>v \<in> set dy. w ! i = v ! j) dx)"
    using assms(4) dx dy by (simp add: pruned_def split: option.splits)
  have k: "map fst ?d' = map fst d"
  proof -
    from assms(2) have "(x, dx) \<in> set d" by (rule map_of_SomeD)
    then have "x \<in> set (map fst d)" by force
    then show ?thesis by (simp add: AList.update_keys del: set_map)
  qed
  have other: "\<forall>z. z \<noteq> x \<longrightarrow> map_of ?d' z = map_of d z"
    by (simp add: AList.update_conv')
  have mx: "map_of ?d' x = Some (case ov of
                     None \<Rightarrow> dx
                   | Some (i, j) \<Rightarrow> filter (\<lambda>w. \<exists>v \<in> set dy. w ! i = v ! j) dx)"
    by (simp add: AList.update_conv' P)
  have "set ?P \<subseteq> set dx"
    using pruned_subset [of cw d x y] dx by simp
  moreover have "?P = dx" if "set dx \<subseteq> set ?P"
    using that P by (cases ov) (auto simp: filter_id_conv)
  ultimately have rv: "(?P \<noteq> dom_of d x) \<longleftrightarrow> (\<exists>w \<in> set dx. w \<notin> set (dom_of ?d' x))"
    using dx by (auto simp: dom_of_update)
  have none: "ov = None \<longrightarrow> \<not> (?P \<noteq> dom_of d x) \<and> ?d' = d"
    using P dx assms(2) by (auto simp: AList.update_triv)
  from r k other mx rv none show ?thesis
    by blast
qed

theorem revise_contract_witness:
  "slot_A \<noteq> slot_C \<and>
   map_of domains_C6 slot_A = Some [''AX'', ''AQ''] \<and>
   map_of domains_C6 slot_C = Some [''XCY''] \<and>
   overlaps grid3 (slot_A, slot_C) = Some (Some (1, 0)) \<and>
   (\<exists>revised d'. revise grid3 domains_C6 slot_A slot_C = Inr (revised, d') \<and>
      map_of d' slot_A = Some [''AX''] \<and> revised)"
proof -
  have h1: "slot_A \<noteq> slot_C" by code_simp
  have h2: "map_of domains_C6 slot_A = Some [''AX'', ''AQ'']" by code_simp
  have h3: "map_of domains_C6 slot_C = Some [''XCY'']" by code_simp
  have h4: "overlaps grid3 (slot_A, slot_C) = Some (Some (1, 0))" by code_simp
  have h5: "\<forall>i j. Some (1, 0) = Some (i, j) \<longrightarrow>
           (\<forall>w \<in> set [''AX'', ''AQ'']. i < length w) \<and> (\<forall>v \<in> set [''XCY'']. j < length v)"
    by simp
  from revise_contract [OF h1 h2 h3 h4 h5] h1 h2 h3 h4 show ?thesis
    by (auto simp: dom_of_def)
qed

text \<open>
  C7 (node consistency). After \<open>enforce_node_consistency\<close> every word of a domain has
  the length of its slot; from the initial domains each slot keeps exactly the words
  of the vocabulary that have its length; and \<open>revise\<close>, \<open>ac3\<close> and \<open>backtrack\<close>,
  whenever they return, leave each domain a subset of what it was, so that the length
  invariant still holds.
\<close>

theorem node_consistency_invariant:
  "node_consistent (enforce_node_consistency d) \<and>
   map fst (enforce_node_consistency d) = map fst d \<and>
   (\<forall>var \<in> set (variables cw).
      dom_of (enforce_node_consistency (init_domains cw)) var =
        filter (\<lambda>w. length w = var_length var) (words cw)) \<and>
   (node_consistent d \<longrightarrow>
      (\<forall>b d'. revise cw d x y = Inr (b, d') \<longrightarrow> shrinks d' d \<and> node_consistent d') \<and>
      (\<forall>b d'. ac3 cw arcs d = Inr (b, d') \<longrightarrow> shrinks d' d \<and> node_consistent d') \<and>
      (\<forall>r d'. backtrack cw d a = Inr (r, d') \<longrightarrow> shrinks d' d \<and> node_consistent d'))"
proof (intro conjI ballI impI allI)
  show "node_consistent (enforce_node_consistency d)"
    by (rule node_consistent_enforce)
  show "map fst (enforce_node_consistency d) = map fst d"
    by (rule keys_enforce_node_consistency)
next
  fix var
  assume "var \<in> set (variables cw)"
  then show "dom_of (enforce_node_consistency (init_domains cw)) var =
        filter (\<lambda>w. length w = var_length var) (words cw)"
    by (simp add: dom_of_enforce_node_consistency dom_of_init_domains)
next
  fix b d'
  assume n: "node_consistent d" and "revise cw d x y = Inr (b, d')"
  then show s: "shrinks d' d" by (intro revise_only_removes)
  from s n show "node_consistent d'" by (rule shrinks_node_consistent)
next
  fix b d'
  assume n: "node_consistent d" and "ac3 cw arcs d = Inr (b, d')"
  then show s: "shrinks d' d" by (intro ac3_only_removes)
  from s n show "node_consistent d'" by (rule shrinks_node_consistent)
next
  fix r d'
  assume n: "node_consistent d" and "backtrack cw d a = Inr (r, d')"
  then show s: "shrinks d' d" using backtrack_only_removes(1) by blast
  from s n show "node_consistent d'" by (rule shrinks_node_consistent)
qed

theorem node_consistency_invariant_witness:
  "slot_B \<in> set (variables grid3) \<and>
   dom_of (enforce_node_consistency (init_domains grid3)) slot_B = [''BXBB'', ''BYBB'', ''BZBB''] \<and>
   node_consistent domains_C7 \<and>
   revise grid3 domains_C7 slot_A slot_C = Inr (True, AList.update slot_A [''AX''] domains_C7) \<and>
   node_consistent (AList.update slot_A [''AX''] domains_C7) \<and>
   ac3 grid3 None domains_C7 = Inr (True, domains_C7') \<and>
   node_consistent domains_C7' \<and>
   backtrack grid3 domains_C7 [] =
     Inr (Some [(slot_C, ''XCY''), (slot_A, ''AX''), (slot_B, ''BYBB'')], domains_C7') \<and>
   shrinks domains_C7' domains_C7"
proof -
  have h0: "slot_B \<in> set (variables grid3)" by code_simp
  have h1: "node_consistent domains_C7" by code_simp
  have h2: "revise grid3 domains_C7 slot_A slot_C =
              Inr (True, AList.update slot_A [''AX''] domains_C7)" by code_simp
  have h3: "ac3 grid3 None domains_C7 = Inr (True, domains_C7')" by code_simp
  have h4: "backtrack grid3 domains_C7 [] =
     Inr (Some [(slot_C, ''XCY''), (slot_A, ''AX''), (slot_B, ''BYBB'')], domains_C7')"
    by code_simp
  have h5: "filter (\<lambda>w. length w = var_length slot_B) (words grid3) =
              [''BXBB'', ''BYBB'', ''BZBB'']" by code_simp
  note t = node_consistency_invariant [of domains_C7 grid3 slot_A slot_C None "[]"]
  from t h0 have "dom_of (enforce_node_consistency (init_domains grid3)) slot_B =
        filter (\<lambda>w. length w = var_length slot_B) (words grid3)"
    by blast
  then have e0: "dom_of (enforce_node_consistency (init_domains grid3)) slot_B =
        [''BXBB'', ''BYBB'', ''BZBB'']"
    using h5 by (rule trans)
  from t h1 h2 have r: "node_consistent (AList.update slot_A [''AX''] domains_C7)"
    by blast
  from t h1 h3 have q: "shrinks domains_C7' domains_C7 \<and> node_consistent domains_C7'"
    by blast
  from h0 e0 h1 h2 r h3 q h4 show ?thesis
    by blast
qed

text \<open>
  C8 (variable selection). With a domain for every slot, \<open>select_unassigned_variable\<close>
  returns \<open>None\<close> when every slot is assigned. Otherwise it returns an unassigned
  slot whose domain is no larger than that of any other unassigned slot and which,
  among the unassigned slots with a domain of that size, has the most neighbours.
\<close>

theorem select_unassigned_variable_mrv_degree:
  assumes "keys_ok cw d"
  shows "(set (variables cw) \<subseteq> set (map fst a) \<longrightarrow>
            select_unassigned_variable cw d a = Inr None) \<and>
         (\<not> set (variables cw) \<subseteq> set (map fst a) \<longrightarrow>
            (\<exists>var. select_unassigned_variable cw d a = Inr (Some var) \<and>
               var \<in> set (variables cw) \<and> var \<notin> set (map fst a) \<and>
               (\<forall>v \<in> set (variables cw). v \<notin> set (map fst a) \<longrightarrow>
                  length (dom_of d var) \<le> length (dom_of d v) \<and>
                  (length (dom_of d v) = length (dom_of d var) \<longrightarrow>
                     length (neighbors cw v) \<le> length (neighbors cw var)))))"
proof (intro conjI impI)
  assume "set (variables cw) \<subseteq> set (map fst a)"
  then show "select_unassigned_variable cw d a = Inr None"
    by (rule select_unassigned_variable_none [OF assms])
next
  assume "\<not> set (variables cw) \<subseteq> set (map fst a)"
  then obtain u where "u \<in> set (variables cw)" and "u \<notin> set (map fst a)"
    by blast
  then show "\<exists>var. select_unassigned_variable cw d a = Inr (Some var) \<and>
               var \<in> set (variables cw) \<and> var \<notin> set (map fst a) \<and>
               (\<forall>v \<in> set (variables cw). v \<notin> set (map fst a) \<longrightarrow>
                  length (dom_of d var) \<le> length (dom_of d v) \<and>
                  (length (dom_of d v) = length (dom_of d var) \<longrightarrow>
                     length (neighbors cw v) \<le> length (neighbors cw var)))"
    by (rule select_unassigned_variable_least [OF assms])
qed

theorem select_unassigned_variable_mrv_degree_witness:
  "keys_ok grid3 domains_C8 \<and>
   \<not> set (variables grid3) \<subseteq> set (map fst [(slot_B, ''BXBB'')]) \<and>
   select_unassigned_variable grid3 domains_C8 [(slot_B, ''BXBB'')] = Inr (Some slot_C) \<and>
   set (variables grid3) \<subseteq> set (map fst [(slot_A, ''AX''), (slot_B, ''BXBB''), (slot_C, ''XCY'')]) \<and>
   select_unassigned_variable grid3 domains_C8
     [(slot_A, ''AX''), (slot_B, ''BXBB''), (slot_C, ''XCY'')] = Inr None"
proof -
  have h1: "keys_ok grid3 domains_C8" by code_simp
  have h2: "\<not> set (variables grid3) \<subseteq> set (map fst [(slot_B, ''BXBB'')])" by code_simp
  have h3: "set (variables grid3)
      \<subseteq> set (map fst [(slot_A, ''AX''), (slot_B, ''BXBB''), (slot_C, ''XCY'')])" by code_simp
  have e: "select_unassigned_variable grid3 domains_C8 [(slot_B, ''BXBB'')] = Inr (Some slot_C)"
    by code_simp
  from select_unassigned_variable_mrv_degree [OF h1,
      of "[(slot_A, ''AX''), (slot_B, ''BXBB''), (slot_C, ''XCY'')]"] h3
  have n: "select_unassigned_variable grid3 domains_C8
     [(slot_A, ''AX''), (slot_B, ''BXBB''), (slot_C, ''XCY'')] = Inr None"
    by blast
  from h1 h2 e h3 n show ?thesis by blast
qed



text \<open>
  C10 (degenerate input). On a well-formed crossword in which node consistency leaves
  some slot without a word, \<open>ac3\<close> returns \<open>False\<close> before the search is called.
  \<open>solve\<close> then calls \<open>backtrack\<close>, which selects a slot with an empty domain, has
  no candidate to try and returns \<open>None\<close>, and so does \<open>solve\<close>.
\<close>

theorem degenerate_input_unsatisfiable:
  assumes "wf_crossword cw" and "var \<in> set (variables cw)"
    and "dom_of (enforce_node_consistency (init_domains cw)) var = []"
  shows "\<exists>d. ac3 cw None (enforce_node_consistency (init_domains cw)) = Inr (False, d) \<and>
           (\<exists>v. select_unassigned_variable cw d [] = Inr (Some v) \<and>
                order_domain_values cw d v [] = Inr []) \<and>
           backtrack cw d [] = Inr (None, d) \<and>
           solve cw = Inr None"
proof -
  let ?d0 = "enforce_node_consistency (init_domains cw)"
  from ac3_default [OF assms(1) domains_ok_initial] obtain d where
    a: "ac3 cw None ?d0 = Inr (no_empty_domain cw d, d)" and ok: "domains_ok cw d"
    and s: "shrinks d ?d0"
    by blast
  from s have "set (dom_of d var) \<subseteq> set (dom_of ?d0 var)"
    by (simp add: shrinks_def)
  with assms(3) have e: "dom_of d var = []"
    by simp
  with assms(2) have "\<not> no_empty_domain cw d"
    by (auto simp: no_empty_domain_def)
  with a have a': "ac3 cw None ?d0 = Inr (False, d)" by simp
  from backtrack_empty_domain [OF assms(1) ok assms(2) e]
  have b: "backtrack cw d [] = Inr (None, d)"
    and t: "\<exists>v. select_unassigned_variable cw d [] = Inr (Some v) \<and>
                order_domain_values cw d v [] = Inr []"
    by blast+
  from a' b have "solve cw = Inr None" by (simp add: solve_def)
  with a' b t show ?thesis by blast
qed

theorem degenerate_input_unsatisfiable_witness:
  "wf_crossword grid1 \<and> Variable 0 0 ACROSS 4 \<in> set (variables grid1) \<and>
   dom_of (enforce_node_consistency (init_domains grid1)) (Variable 0 0 ACROSS 4) = [] \<and>
   (\<exists>d. ac3 grid1 None (enforce_node_consistency (init_domains grid1)) = Inr (False, d)) \<and>
   solve grid1 = Inr None"
proof -
  have h1: "wf_crossword grid1" by code_simp
  have h2: "Variable 0 0 ACROSS 4 \<in> set (variables grid1)" by code_simp
  have h3: "dom_of (enforce_node_consistency (init_domains grid1)) (Variable 0 0 ACROSS 4) = []"
    by code_simp
  from degenerate_input_unsatisfiable [OF h1 h2 h3] h1 h2 h3 show ?thesis by blast
qed

end
